theory Spec2Isabelle
  imports Complex_Main "HOL-Library.Char_ord" "HOL-Library.List_Lexorder"
begin

section \<open>JavaScript numbers\<close>

text \<open>
  A JavaScript number is an IEEE 754 binary64 value: a finite double, one of the two
  infinities, or NaN.  \<open>Fin x\<close> is the finite double whose value is the real number \<open>x\<close>, with
  \<open>Fin 0\<close> for \<open>+0\<close>; \<open>NegZero\<close> is \<open>-0\<close>.  The finite doubles are the multiples \<open>m \<times> 2\<^sup>q\<close> with
  \<open>|m| < 2\<^sup>5\<^sup>3\<close> and \<open>-1074 \<le> q \<le> 971\<close>.
\<close>

datatype jsnum = Fin real | NegZero | PosInf | NegInf | NaN

text \<open>Powers of two with an integer exponent.\<close>

definition pow2 :: "int \<Rightarrow> real" where
  "pow2 k = (if 0 \<le> k then 2 ^ nat k else 1 / 2 ^ nat (- k))"

text \<open>Rounding to the nearest integer, a tie going to the even one.\<close>

definition round_half_even :: "real \<Rightarrow> int" where
  "round_half_even r =
     (let f = \<lfloor>r\<rfloor>; d = r - of_int f
      in if d < 1 / 2 then f else if 1 / 2 < d then f + 1 else if even f then f else f + 1)"

text \<open>
  The spacing of the doubles around a positive real \<open>a\<close>: \<open>2\<^sup>e\<^sup>-\<^sup>5\<^sup>2\<close> for \<open>2\<^sup>e \<le> a < 2\<^sup>e\<^sup>+\<^sup>1\<close>, and
  \<open>2\<^sup>-\<^sup>1\<^sup>0\<^sup>7\<^sup>4\<close> in the subnormal range.
\<close>

definition quantum :: "real \<Rightarrow> int" where
  "quantum a = max (\<lfloor>log 2 a\<rfloor> - 52) (- 1074)"

text \<open>
  The result of an arithmetic operation whose exact value is the real \<open>x\<close>: the nearest
  double, ties to even; an infinity when the rounded magnitude reaches \<open>2\<^sup>1\<^sup>0\<^sup>2\<^sup>4\<close>; a zero of the
  sign of \<open>x\<close> when it rounds to zero.
\<close>

definition round_double :: "real \<Rightarrow> jsnum" where
  "round_double x =
     (if x = 0 then Fin 0
      else let a = \<bar>x\<bar>; q = quantum a; m = of_int (round_half_even (a / pow2 q)) * pow2 q
           in if pow2 1024 \<le> m then (if x < 0 then NegInf else PosInf)
              else if m = 0 then (if x < 0 then NegZero else Fin 0)
              else Fin (if x < 0 then - m else m))"

definition is_nan :: "jsnum \<Rightarrow> bool" where
  "is_nan a = (a = NaN)"

definition is_inf :: "jsnum \<Rightarrow> bool" where
  "is_inf a = (a = PosInf \<or> a = NegInf)"

definition is_zero :: "jsnum \<Rightarrow> bool" where
  "is_zero a = (a = Fin 0 \<or> a = NegZero)"

fun negative :: "jsnum \<Rightarrow> bool" where
  "negative (Fin x) = (x < 0)"
| "negative NegZero = True"
| "negative NegInf = True"
| "negative _ = False"

fun value_of :: "jsnum \<Rightarrow> real" where
  "value_of (Fin x) = x"
| "value_of _ = 0"

definition zero_of :: "bool \<Rightarrow> jsnum" where
  "zero_of s = (if s then NegZero else Fin 0)"

definition inf_of :: "bool \<Rightarrow> jsnum" where
  "inf_of s = (if s then NegInf else PosInf)"

text \<open>
  \<^verbatim>\<open>a + b\<close>.  NaN propagates; infinities of opposite sign give NaN; an exact sum of zero
  is \<open>+0\<close> unless both operands are \<open>-0\<close>; any other sum is rounded.
\<close>

definition js_add :: "jsnum \<Rightarrow> jsnum \<Rightarrow> jsnum" where
  "js_add a b =
     (if is_nan a \<or> is_nan b then NaN
      else if is_inf a then (if is_inf b \<and> a \<noteq> b then NaN else a)
      else if is_inf b then b
      else if value_of a + value_of b = 0
        then (if a = NegZero \<and> b = NegZero then NegZero else Fin 0)
      else round_double (value_of a + value_of b))"

text \<open>
  \<^verbatim>\<open>a / b\<close>.  NaN propagates; \<open>\<infinity>/\<infinity>\<close> and \<open>0/0\<close> are NaN; a division by a zero or of an
  infinity gives an infinity, a division by an infinity or of a zero gives a zero, with
  the sign of the quotient; any other quotient is rounded.
\<close>

definition js_div :: "jsnum \<Rightarrow> jsnum \<Rightarrow> jsnum" where
  "js_div a b =
     (if is_nan a \<or> is_nan b then NaN
      else let s = (negative a \<noteq> negative b)
           in if is_inf a then (if is_inf b then NaN else inf_of s)
              else if is_inf b then zero_of s
              else if is_zero b then (if is_zero a then NaN else inf_of s)
              else if is_zero a then zero_of s
              else round_double (value_of a / value_of b))"

text \<open>\<^verbatim>\<open>Number.isFinite\<close>\<close>

fun isFinite :: "jsnum \<Rightarrow> bool" where
  "isFinite (Fin _) = True"
| "isFinite NegZero = True"
| "isFinite _ = False"

text \<open>
  The operand of an arithmetic operator that is a number or \<^verbatim>\<open>undefined\<close>: \<^verbatim>\<open>undefined\<close>
  converts to NaN.
\<close>

definition ToNumber :: "jsnum option \<Rightarrow> jsnum" where
  "ToNumber v = (case v of None \<Rightarrow> NaN | Some n \<Rightarrow> n)"

section \<open>ProbabilityNormalizer\<close>

text \<open>
  \<^verbatim>\<open>
  function normalizeDecimalOddsToProbs(decimalOdds) {
    const implied = decimalOdds.map(o => 1 / o);
    const sum = implied.reduce((a, b) => a + b, 0);
    return implied.map(p => p / sum);
  }\<close>
  The function is the same in both files.  \<^verbatim>\<open>reduce\<close> with an initial value is a left fold.
  An element of the array is a number or \<^verbatim>\<open>undefined\<close> (the price of an outcome that has
  none).
\<close>

definition normalizeDecimalOddsToProbs :: "jsnum option list \<Rightarrow> jsnum list" where
  "normalizeDecimalOddsToProbs decimalOdds =
     (let implied = map (\<lambda>d. js_div (Fin 1) (ToNumber d)) decimalOdds;
          sum = foldl js_add (Fin 0) implied
      in map (\<lambda>p. js_div p sum) implied)"

text \<open>
  For the analysis of the rounding errors: the value of the double that a real rounds to,
  the unit roundoff \<open>2\<^sup>-\<^sup>5\<^sup>3\<close>, the range of the normal doubles below \<open>2\<^sup>1\<^sup>0\<^sup>2\<^sup>3\<close>, the sum as the
  fold computes it, and the probability that the function returns for an odds value \<open>d\<close>
  of the array \<open>os\<close>.
\<close>

definition rd :: "real \<Rightarrow> real" where
  "rd x = value_of (round_double x)"

definition unit_roundoff :: real where
  "unit_roundoff = 1 / 2 ^ 53"

definition normal_range :: "real \<Rightarrow> bool" where
  "normal_range x = (pow2 (- 1022) \<le> x \<and> x < pow2 1023)"

fun fsum :: "real \<Rightarrow> real list \<Rightarrow> real" where
  "fsum acc [] = acc"
| "fsum acc (a # as) = fsum (rd (acc + a)) as"

definition prob_of :: "real list \<Rightarrow> real \<Rightarrow> real" where
  "prob_of os d = rd (rd (1 / d) / fsum 0 (map (\<lambda>x. rd (1 / x)) os))"

section \<open>JavaScript values, strings and arrays\<close>

text \<open>
  Strings are lists of 8-bit characters.  The characters that the serializers and the
  reader test for are named here; the others are written as literals.
\<close>

abbreviation DQUOTE :: char where "DQUOTE \<equiv> CHR 0x22"
abbreviation NEWLINE :: char where "NEWLINE \<equiv> CHR 0x0A"
abbreviation COMMA :: char where "COMMA \<equiv> CHR 0x2C"
abbreviation RETURN :: char where "RETURN \<equiv> CHR 0x0D"

text \<open>The values that occur as properties of the persisted rows.\<close>

datatype jsval = JUndefined | JNull | JStr string | JNum jsnum

text \<open>\<^verbatim>\<open>xs[i]\<close>: reading past the end of an array gives \<^verbatim>\<open>undefined\<close>, here \<open>None\<close>.\<close>

definition js_index :: "'a list \<Rightarrow> nat \<Rightarrow> 'a option" where
  "js_index xs i = (if i < length xs then Some (xs ! i) else None)"

text \<open>The same on an array whose elements may themselves be \<^verbatim>\<open>undefined\<close>.\<close>

definition js_at :: "'a option list \<Rightarrow> nat \<Rightarrow> 'a option" where
  "js_at xs i = (if i < length xs then xs ! i else None)"

text \<open>
  \<^verbatim>\<open>xs.join(sep)\<close> on an array of strings; an element that is \<^verbatim>\<open>undefined\<close> is joined as
  the empty string, which is \<open>or_empty\<close> below.
\<close>

fun js_join :: "string \<Rightarrow> string list \<Rightarrow> string" where
  "js_join sep [] = []"
| "js_join sep [x] = x"
| "js_join sep (x # y # ys) = x @ sep @ js_join sep (y # ys)"

text \<open>\<^verbatim>\<open>a || b\<close> on values that are a string or \<^verbatim>\<open>undefined\<close>: the empty string is falsy.\<close>

definition js_or :: "string option \<Rightarrow> string option \<Rightarrow> string option" where
  "js_or a b = (case a of None \<Rightarrow> b | Some s \<Rightarrow> if s = [] then b else Some s)"

text \<open>\<^verbatim>\<open>a || ''\<close>\<close>

definition or_empty :: "string option \<Rightarrow> string" where
  "or_empty a = (case a of None \<Rightarrow> [] | Some s \<Rightarrow> s)"

text \<open>\<^verbatim>\<open>xs || []\<close>\<close>

definition or_nil :: "'a list option \<Rightarrow> 'a list" where
  "or_nil a = (case a of None \<Rightarrow> [] | Some xs \<Rightarrow> xs)"

subsection \<open>Numbers to strings\<close>

text \<open>
  \<^verbatim>\<open>String(n)\<close> on a number.  The three special values have fixed names and both zeros
  print as \<^verbatim>\<open>0\<close>; the shortest round-trip decimal that the runtime prints for a finite
  number is a parameter \<open>numstr\<close> of the model.
\<close>

fun Number_toString :: "(real \<Rightarrow> string) \<Rightarrow> jsnum \<Rightarrow> string" where
  "Number_toString numstr NaN = ''NaN''"
| "Number_toString numstr PosInf = ''Infinity''"
| "Number_toString numstr NegInf = ''-Infinity''"
| "Number_toString numstr NegZero = ''0''"
| "Number_toString numstr (Fin x) = numstr x"

definition digit_char :: "nat \<Rightarrow> char" where
  "digit_char d = ''0123456789'' ! (d mod 10)"

fun dec :: "nat \<Rightarrow> string" where
  "dec n = (if n < 10 then [digit_char n] else dec (n div 10) @ [digit_char (n mod 10)])"

declare dec.simps [simp del]

definition pad2 :: "nat \<Rightarrow> string" where
  "pad2 n = [digit_char (n div 10), digit_char n]"

definition pad3 :: "nat \<Rightarrow> string" where
  "pad3 n = [digit_char (n div 100), digit_char (n div 10), digit_char n]"

definition pad4 :: "nat \<Rightarrow> string" where
  "pad4 n = [digit_char (n div 1000), digit_char (n div 100), digit_char (n div 10), digit_char n]"

definition pad6 :: "nat \<Rightarrow> string" where
  "pad6 n = [digit_char (n div 100000), digit_char (n div 10000), digit_char (n div 1000),
             digit_char (n div 100), digit_char (n div 10), digit_char n]"

text \<open>
  \<^verbatim>\<open>x.toFixed(4)\<close>.  For a finite \<open>x\<close> below \<open>10\<^sup>2\<^sup>1\<close> in magnitude the language takes the integer
  \<open>n\<close> with \<open>n / 10\<^sup>4\<close> nearest to the exact value of \<open>|x|\<close>, the larger one on a tie, and prints
  it with four digits after the point and a leading minus sign when \<open>x < 0\<close> (so not for
  \<open>-0\<close>).  A value that is not finite is printed as \<^verbatim>\<open>String(x)\<close>, and a magnitude of \<open>10\<^sup>2\<^sup>1\<close> or
  more as its \<^verbatim>\<open>String\<close> after the sign.
\<close>

definition fixed4_units :: "real \<Rightarrow> nat" where
  "fixed4_units x = nat \<lfloor>x * 10 ^ 4 + 1 / 2\<rfloor>"

definition fixed4 :: "real \<Rightarrow> string" where
  "fixed4 x = (let n = fixed4_units x in dec (n div 10000) @ ''.'' @ pad4 (n mod 10000))"

fun toFixed4 :: "(real \<Rightarrow> string) \<Rightarrow> jsnum \<Rightarrow> string" where
  "toFixed4 numstr (Fin x) =
     (let s = (if x < 0 then ''-'' else []);
          a = (if x < 0 then - x else x)
      in s @ (if 10 ^ 21 \<le> a then numstr a else fixed4 a))"
| "toFixed4 numstr NegZero = fixed4 0"
| "toFixed4 numstr n = Number_toString numstr n"

section \<open>Errors\<close>

text \<open>
  The exceptions that the code throws or lets through: its own \<^verbatim>\<open>Error\<close>, the \<^verbatim>\<open>TypeError\<close>
  of the runtime (a rejected \<^verbatim>\<open>fetch\<close>, a property read on \<^verbatim>\<open>undefined\<close>, a value that is not
  iterable), and the \<^verbatim>\<open>SyntaxError\<close> with which \<^verbatim>\<open>res.json()\<close> rejects a body that is not JSON.
\<close>

datatype error = Error string | TypeError string | SyntaxError string

section \<open>The upstream payload\<close>

text \<open>
  One event of the odds endpoint: \<^verbatim>\<open>{id, commence_time, bookmakers: [{key, title, markets:
  [{key, outcomes: [{name, price}]}]}]}\<close>.  The code guards \<^verbatim>\<open>bookmakers\<close>, \<^verbatim>\<open>markets\<close>,
  \<^verbatim>\<open>title\<close> and \<^verbatim>\<open>key\<close> of a bookmaker against being absent, so these are optional here.
  The \<^verbatim>\<open>outcomes\<close> of a market, and the \<^verbatim>\<open>name\<close> and the \<^verbatim>\<open>price\<close> of an outcome, are read
  without a guard; they are optional too, an absent one being \<^verbatim>\<open>undefined\<close>.  The elements
  of the arrays are objects, and a price that is present is a number.
\<close>

record outcome =
  o_name :: "string option"
  o_price :: "jsnum option"

record market =
  m_key :: string
  m_outcomes :: "outcome list option"

record bookmaker =
  b_key :: "string option"
  b_title :: "string option"
  b_markets :: "market list option"

record raw_event =
  e_id :: string
  e_commence_time :: string
  e_bookmakers :: "bookmaker list option"

section \<open>MarketRowExtractor\<close>

text \<open>
  Both \<^verbatim>\<open>fetchOddsForKey\<close> functions start the treatment of an event with the same lines:
  \<^verbatim>\<open>
  const bk = (ev.bookmakers || []).find(b => (b.markets || []).some(m => m.key === 'h2h'));
  const h2h = bk?.markets?.find(m => m.key === 'h2h');
  if (!h2h) continue;                       // return null; in odds.js
  const names = h2h.outcomes.map(o => o.name);
  const odds = h2h.outcomes.map(o => o.price);
  if (odds.length < 2) continue;            // return null; in odds.js
  const probs = normalizeDecimalOddsToProbs(odds);\<close>
  \<^verbatim>\<open>h2h.outcomes.map\<close> throws a \<^verbatim>\<open>TypeError\<close> when the market has no \<^verbatim>\<open>outcomes\<close>.
\<close>

definition is_h2h :: "market \<Rightarrow> bool" where
  "is_h2h m = (m_key m = ''h2h'')"

definition offers_h2h :: "bookmaker \<Rightarrow> bool" where
  "offers_h2h b = list_ex is_h2h (or_nil (b_markets b))"

definition find_bk :: "raw_event \<Rightarrow> bookmaker option" where
  "find_bk ev = find offers_h2h (or_nil (e_bookmakers ev))"

definition find_h2h :: "bookmaker option \<Rightarrow> market option" where
  "find_h2h bk =
     (case bk of None \<Rightarrow> None
      | Some b \<Rightarrow> (case b_markets b of None \<Rightarrow> None | Some ms \<Rightarrow> find is_h2h ms))"

record extracted =
  x_event :: raw_event
  x_bk :: "bookmaker option"
  x_names :: "string option list"
  x_odds :: "jsnum option list"
  x_probs :: "jsnum list"

definition extract_market :: "raw_event \<Rightarrow> error + extracted option" where
  "extract_market ev =
     (let bk = find_bk ev; h2h = find_h2h bk in
      case h2h of None \<Rightarrow> Inr None
      | Some m \<Rightarrow>
          (case m_outcomes m of
             None \<Rightarrow> Inl (TypeError ''h2h.outcomes is undefined'')
           | Some outcomes \<Rightarrow>
               (let names = map o_name outcomes;
                    odds = map o_price outcomes
                in if length odds < 2 then Inr None
                   else Inr (Some \<lparr>x_event = ev, x_bk = bk, x_names = names, x_odds = odds,
                                    x_probs = normalizeDecimalOddsToProbs odds\<rparr>))))"

section \<open>RowAssembler\<close>

text \<open>
  An object is the list of its properties in the order of their creation, each key once.
\<close>

type_synonym row = "(string \<times> jsval) list"

definition bk_title_or_key :: "bookmaker option \<Rightarrow> string option" where
  "bk_title_or_key bk =
     js_or (case bk of None \<Rightarrow> None | Some b \<Rightarrow> b_title b)
           (case bk of None \<Rightarrow> None | Some b \<Rightarrow> b_key b)"

text \<open>
  \<^verbatim>\<open>odds_all.js\<close>, the object pushed for an event:
  \<^verbatim>\<open>
  prob1: Number.isFinite(probs[0]) ? probs[0].toFixed(4) : '',\<close>
\<close>

definition finite_fixed4 :: "(real \<Rightarrow> string) \<Rightarrow> jsnum option \<Rightarrow> jsval" where
  "finite_fixed4 numstr p =
     (case p of None \<Rightarrow> JStr []
      | Some v \<Rightarrow> if isFinite v then JStr (toFixed4 numstr v) else JStr [])"

definition num_or_undefined :: "jsnum option \<Rightarrow> jsval" where
  "num_or_undefined v = (case v of None \<Rightarrow> JUndefined | Some n \<Rightarrow> JNum n)"

definition all_row :: "(real \<Rightarrow> string) \<Rightarrow> string \<Rightarrow> string \<Rightarrow> extracted \<Rightarrow> row" where
  "all_row numstr REGION sportKey x =
     [(''event_id'', JStr (e_id (x_event x))),
      (''start'', JStr (e_commence_time (x_event x))),
      (''player1'', JStr (or_empty (js_at (x_names x) 0))),
      (''player2'', JStr (or_empty (js_at (x_names x) 1))),
      (''odds1'', num_or_undefined (js_at (x_odds x) 0)),
      (''odds2'', num_or_undefined (js_at (x_odds x) 1)),
      (''prob1'', finite_fixed4 numstr (js_index (x_probs x) 0)),
      (''prob2'', finite_fixed4 numstr (js_index (x_probs x) 1)),
      (''bookmaker'', JStr (or_empty (bk_title_or_key (x_bk x)))),
      (''sport_key'', JStr sportKey),
      (''region'', JStr REGION)]"

text \<open>
  The loop \<^verbatim>\<open>for (const ev of raw) { ... rows.push({...}); }\<close> of \<^verbatim>\<open>odds_all.js\<close>; an exception
  in the treatment of an event leaves it.
\<close>

fun all_rows ::
  "(real \<Rightarrow> string) \<Rightarrow> string \<Rightarrow> string \<Rightarrow> raw_event list \<Rightarrow> error + row list" where
  "all_rows numstr REGION sportKey [] = Inr []"
| "all_rows numstr REGION sportKey (ev # raw) =
     (case extract_market ev of
        Inl e \<Rightarrow> Inl e
      | Inr None \<Rightarrow> all_rows numstr REGION sportKey raw
      | Inr (Some x) \<Rightarrow>
          (case all_rows numstr REGION sportKey raw of
             Inl e \<Rightarrow> Inl e
           | Inr rows \<Rightarrow> Inr (all_row numstr REGION sportKey x # rows)))"

text \<open>
  \<^verbatim>\<open>odds.js\<close> first maps each event to an object or \<^verbatim>\<open>null\<close> and filters the nulls out:
  \<^verbatim>\<open>
  return { id: ev.id, start: ev.commence_time, players: names, odds_decimal: odds,
           probs_normalized: probs, bookmaker: bk?.title || bk?.key };\<close>
\<close>

record cli_event =
  c_id :: string
  c_start :: string
  c_players :: "string option list"
  c_odds_decimal :: "jsnum option list"
  c_probs_normalized :: "jsnum list"
  c_bookmaker :: "string option"

definition cli_event_of :: "raw_event \<Rightarrow> extracted \<Rightarrow> cli_event" where
  "cli_event_of ev x =
     \<lparr>c_id = e_id ev, c_start = e_commence_time ev, c_players = x_names x,
      c_odds_decimal = x_odds x, c_probs_normalized = x_probs x,
      c_bookmaker = bk_title_or_key (x_bk x)\<rparr>"

text \<open>\<^verbatim>\<open>raw.map(ev => ...).filter(Boolean)\<close>; an exception in the callback leaves the \<^verbatim>\<open>map\<close>.\<close>

fun cli_mapped :: "raw_event list \<Rightarrow> error + cli_event list" where
  "cli_mapped [] = Inr []"
| "cli_mapped (ev # raw) =
     (case extract_market ev of
        Inl e \<Rightarrow> Inl e
      | Inr x \<Rightarrow>
          (case cli_mapped raw of
             Inl e \<Rightarrow> Inl e
           | Inr events \<Rightarrow>
               Inr (case x of None \<Rightarrow> events | Some y \<Rightarrow> cli_event_of ev y # events)))"

text \<open>
  \<^verbatim>\<open>
  function filterByNames(events, includePattern) {
    if (!includePattern) return events;
    const re = new RegExp(includePattern, 'i');
    return events.filter(e => re.test((e.players || []).join(' ')));
  }\<close>
  The compiled regular expression is a predicate on strings.
\<close>

definition filterByNames :: "cli_event list \<Rightarrow> (string \<Rightarrow> bool) option \<Rightarrow> cli_event list" where
  "filterByNames events include =
     (case include of None \<Rightarrow> events
      | Some re \<Rightarrow> filter (\<lambda>e. re (js_join '' '' (map or_empty (c_players e)))) events)"

text \<open>
  The CSV rows of \<^verbatim>\<open>odds.js\<close>:
  \<^verbatim>\<open>
  odds1: e.odds_decimal[0] ?? '',
  prob1: e.probs_normalized[0]?.toFixed(4) ?? '',\<close>
\<close>

definition num_or_blank :: "jsnum option \<Rightarrow> jsval" where
  "num_or_blank v = (case v of None \<Rightarrow> JStr [] | Some n \<Rightarrow> JNum n)"

definition fixed4_or_blank :: "(real \<Rightarrow> string) \<Rightarrow> jsnum option \<Rightarrow> jsval" where
  "fixed4_or_blank numstr p = (case p of None \<Rightarrow> JStr [] | Some v \<Rightarrow> JStr (toFixed4 numstr v))"

definition cli_row :: "(real \<Rightarrow> string) \<Rightarrow> string \<Rightarrow> cli_event \<Rightarrow> row" where
  "cli_row numstr regionToUse e =
     [(''id'', JStr (c_id e)),
      (''start'', JStr (c_start e)),
      (''player1'', JStr (or_empty (js_at (c_players e) 0))),
      (''player2'', JStr (or_empty (js_at (c_players e) 1))),
      (''odds1'', num_or_blank (js_at (c_odds_decimal e) 0)),
      (''odds2'', num_or_blank (js_at (c_odds_decimal e) 1)),
      (''prob1'', fixed4_or_blank numstr (js_index (c_probs_normalized e) 0)),
      (''prob2'', fixed4_or_blank numstr (js_index (c_probs_normalized e) 1)),
      (''bookmaker'', JStr (or_empty (c_bookmaker e))),
      (''region'', JStr regionToUse)]"

text \<open>\<^verbatim>\<open>r[h]\<close>\<close>

definition get_prop :: "row \<Rightarrow> string \<Rightarrow> jsval" where
  "get_prop r h = (case map_of r h of None \<Rightarrow> JUndefined | Some v \<Rightarrow> v)"

section \<open>CsvSerializer\<close>

text \<open>
  \<^verbatim>\<open>
  function toCsv(rows) {
    if (!rows.length) return '';
    const headers = Object.keys(rows[0]);
    const esc = v => {
      if (v === null || v === undefined) return '';
      const s = String(v);
      return /[",\n]/.test(s) ? `"${s.replace(/"/g, '""')}"` : s;
    };
    return [headers.join(','), ...rows.map(r => headers.map(h => esc(r[h])).join(','))].join('\n');
  }\<close>
\<close>

text \<open>
  \<^verbatim>\<open>Object.keys\<close> lists first the keys that are array indices (the canonical decimal
  numerals of the integers below \<open>2\<^sup>3\<^sup>2 - 1\<close>) in ascending numeric order, then the other keys
  in the order of their creation.
\<close>

definition digit_value :: "char \<Rightarrow> nat" where
  "digit_value c = of_char c - 48"

fun digits_value :: "nat \<Rightarrow> string \<Rightarrow> nat" where
  "digits_value acc [] = acc"
| "digits_value acc (c # cs) = digits_value (10 * acc + digit_value c) cs"

definition is_digit :: "char \<Rightarrow> bool" where
  "is_digit c = (48 \<le> (of_char c :: nat) \<and> (of_char c :: nat) \<le> 57)"

definition is_array_index :: "string \<Rightarrow> bool" where
  "is_array_index s =
     (s \<noteq> [] \<and> list_all is_digit s \<and> (s = ''0'' \<or> hd s \<noteq> CHR ''0'')
      \<and> digits_value 0 s < 4294967295)"

definition Object_keys :: "row \<Rightarrow> string list" where
  "Object_keys r =
     (let keys = map fst r
      in sort_key (digits_value 0) (filter is_array_index keys)
         @ filter (\<lambda>k. \<not> is_array_index k) keys)"

fun String_js :: "(real \<Rightarrow> string) \<Rightarrow> jsval \<Rightarrow> string" where
  "String_js numstr JUndefined = ''undefined''"
| "String_js numstr JNull = ''null''"
| "String_js numstr (JStr s) = s"
| "String_js numstr (JNum n) = Number_toString numstr n"

text \<open>\<^verbatim>\<open>/[",\n]/.test(s)\<close>\<close>

definition needs_quoting :: "string \<Rightarrow> bool" where
  "needs_quoting s = list_ex (\<lambda>c. c = DQUOTE \<or> c = COMMA \<or> c = NEWLINE) s"

text \<open>\<^verbatim>\<open>s.replace(/"/g, '""')\<close>\<close>

fun replace_quotes :: "string \<Rightarrow> string" where
  "replace_quotes [] = []"
| "replace_quotes (c # cs) =
     (if c = DQUOTE then DQUOTE # DQUOTE # replace_quotes cs else c # replace_quotes cs)"

definition esc :: "(real \<Rightarrow> string) \<Rightarrow> jsval \<Rightarrow> string" where
  "esc numstr v =
     (if v = JNull \<or> v = JUndefined then []
      else let s = String_js numstr v
           in if needs_quoting s then [DQUOTE] @ replace_quotes s @ [DQUOTE] else s)"

definition toCsv :: "(real \<Rightarrow> string) \<Rightarrow> row list \<Rightarrow> string" where
  "toCsv numstr rows =
     (case rows of [] \<Rightarrow> []
      | r0 # _ \<Rightarrow>
          (let headers = Object_keys r0
           in js_join [NEWLINE]
                (js_join '','' headers
                 # map (\<lambda>r. js_join '','' (map (\<lambda>h. esc numstr (get_prop r h)) headers)) rows)))"


section \<open>Timestamps and the archive stamp\<close>

text \<open>
  \<^verbatim>\<open>new Date().toISOString()\<close> prints the UTC calendar fields of the current instant as
  \<^verbatim>\<open>YYYY-MM-DDTHH:mm:ss.sssZ\<close>, and a year above 9999 with a plus sign and six digits.
\<close>

record timestamp =
  t_year :: nat
  t_month :: nat
  t_day :: nat
  t_hour :: nat
  t_minute :: nat
  t_second :: nat
  t_millis :: nat

definition valid_timestamp :: "timestamp \<Rightarrow> bool" where
  "valid_timestamp t =
     (1 \<le> t_month t \<and> t_month t \<le> 12 \<and> 1 \<le> t_day t \<and> t_day t \<le> 31 \<and>
      t_hour t < 24 \<and> t_minute t < 60 \<and> t_second t < 60 \<and> t_millis t < 1000)"

definition toISOString :: "timestamp \<Rightarrow> string" where
  "toISOString t =
     (if t_year t \<le> 9999 then pad4 (t_year t) else ''+'' @ pad6 (t_year t))
     @ ''-'' @ pad2 (t_month t) @ ''-'' @ pad2 (t_day t)
     @ ''T'' @ pad2 (t_hour t) @ '':'' @ pad2 (t_minute t) @ '':'' @ pad2 (t_second t)
     @ ''.'' @ pad3 (t_millis t) @ ''Z''"

text \<open>\<^verbatim>\<open>const stamp = ts.replace(/[-:]/g,'').slice(0,15);\<close>\<close>

definition stamp :: "string \<Rightarrow> string" where
  "stamp ts = take 15 (filter (\<lambda>c. c \<noteq> CHR ''-'' \<and> c \<noteq> CHR '':'') ts)"

text \<open>
  Chronological order of two UTC timestamps, on their calendar fields down to the
  second and down to the millisecond.
\<close>

definition second_key :: "timestamp \<Rightarrow> nat" where
  "second_key t =
     ((((t_year t * 100 + t_month t) * 100 + t_day t) * 100 + t_hour t) * 100 + t_minute t) * 100
     + t_second t"

definition earlier_second :: "timestamp \<Rightarrow> timestamp \<Rightarrow> bool" where
  "earlier_second a b = (second_key a < second_key b)"

text \<open>
  The stamp as the specification describes it: year, month, day, hour and minute, with no
  separator.
\<close>

definition minute_stamp :: "timestamp \<Rightarrow> string" where
  "minute_stamp t =
     pad4 (t_year t) @ pad2 (t_month t) @ pad2 (t_day t) @ pad2 (t_hour t) @ pad2 (t_minute t)"

section \<open>OddsMarketClient and the entry points\<close>

text \<open>
  \<^verbatim>\<open>await fetch(url)\<close> either rejects (a transport failure) or gives a response with its
  \<^verbatim>\<open>ok\<close> flag, its status line and its body.  \<^verbatim>\<open>res.json()\<close> on the body gives an array of
  events, a string, another JSON value (an object, a number, a boolean or \<^verbatim>\<open>null\<close>), or
  rejects because the body is not JSON.  The network is a function from the competition
  key and the region of the request to that outcome.
\<close>

datatype 'a body = JsonArray "'a list" | JsonString string | JsonOther | JsonInvalid

datatype 'a fetched = Rejected string | Response bool string "'a body"

type_synonym network = "string \<Rightarrow> string \<Rightarrow> raw_event fetched"

text \<open>The outcome of a run: \<^verbatim>\<open>process.exit(1)\<close> from the catch block, or normal completion.\<close>

datatype 'a run = Exit1 error | Completed 'a

subsection \<open>The bulk snapshot, \<^verbatim>\<open>odds_all.js\<close>\<close>

text \<open>
  \<^verbatim>\<open>
  async function fetchOddsForKey(sportKey) {
    const res = await fetch(url);
    if (!res.ok) return [];
    const raw = await res.json();
    const rows = [];
    for (const ev of raw) { ... }
    return rows;
  }\<close>
  The function has no \<^verbatim>\<open>try\<close>: a rejection of \<^verbatim>\<open>fetch\<close> or of \<^verbatim>\<open>res.json()\<close> is its own.
  \<^verbatim>\<open>for ... of\<close> over a string visits its characters, none of which has \<^verbatim>\<open>bookmakers\<close>, so
  it pushes no row; over a value that is not iterable it throws.
\<close>

definition all_fetchOddsForKey ::
  "(real \<Rightarrow> string) \<Rightarrow> network \<Rightarrow> string \<Rightarrow> string \<Rightarrow> error + row list" where
  "all_fetchOddsForKey numstr net REGION sportKey =
     (case net sportKey REGION of
        Rejected msg \<Rightarrow> Inl (TypeError msg)
      | Response ok status body \<Rightarrow>
          if \<not> ok then Inr []
          else (case body of
                  JsonInvalid \<Rightarrow> Inl (SyntaxError ''Unexpected token'')
                | JsonArray raw \<Rightarrow> all_rows numstr REGION sportKey raw
                | JsonString s \<Rightarrow> Inr []
                | JsonOther \<Rightarrow> Inl (TypeError ''raw is not iterable'')))"

text \<open>
  \<^verbatim>\<open>
  const all = [];
  for (const { key } of keys) {
    const rows = await fetchOddsForKey(key);
    all.push(...rows);
    await sleep(200);
  }\<close>
  An exception in one iteration leaves the loop.
\<close>

fun all_loop :: "(real \<Rightarrow> string) \<Rightarrow> network \<Rightarrow> string \<Rightarrow> row list \<Rightarrow> string list \<Rightarrow> error + row list" where
  "all_loop numstr net REGION all [] = Inr all"
| "all_loop numstr net REGION all (key # keys) =
     (case all_fetchOddsForKey numstr net REGION key of
        Inl e \<Rightarrow> Inl e
      | Inr rows \<Rightarrow> all_loop numstr net REGION (all @ rows) keys)"

record all_json =
  j_fetchedAt :: string
  j_region :: string
  j_count :: nat
  j_events :: "row list"

record all_files =
  latest_csv :: string
  latest_json :: all_json
  archive_name :: string
  archive_csv :: string

text \<open>
  The main function.  \<open>catalog\<close> is the result of \<^verbatim>\<open>getActiveTennisKeys()\<close>: the keys of the
  active tennis competitions, or the error it threw.
\<close>

definition all_main ::
  "(real \<Rightarrow> string) \<Rightarrow> network \<Rightarrow> string \<Rightarrow> timestamp \<Rightarrow> error + string list \<Rightarrow> all_files run" where
  "all_main numstr net REGION now catalog =
     (let ts = toISOString now in
      case catalog of
        Inl e \<Rightarrow> Exit1 e
      | Inr keys \<Rightarrow>
          (case all_loop numstr net REGION [] keys of
             Inl e \<Rightarrow> Exit1 e
           | Inr all \<Rightarrow>
               (let csv = toCsv numstr all in
                Completed
                  \<lparr>latest_csv = csv,
                   latest_json = \<lparr>j_fetchedAt = ts, j_region = REGION, j_count = length all,
                                  j_events = all\<rparr>,
                   archive_name = ''data/odds_'' @ stamp ts @ ''.csv'',
                   archive_csv = csv\<rparr>)))"

subsection \<open>The single-competition fetch, \<^verbatim>\<open>odds.js\<close>\<close>

record flags =
  f_include :: "(string \<Rightarrow> bool) option"
  f_writeCsv :: bool
  f_region :: "string option"

record cli_json =
  cj_sportKey :: string
  cj_region :: string
  cj_fetchedAt :: string
  cj_events :: "cli_event list"

record cli_files =
  json_file :: cli_json
  csv_file :: "string option"

text \<open>
  \<^verbatim>\<open>
  const regionToUse = region || process.env.REGION || 'eu';
  const res = await fetch(url);
  if (!res.ok) throw new Error(`Odds fetch failed: ${res.status} ${res.statusText}`);\<close>
\<close>

definition regionToUse :: "flags \<Rightarrow> string option \<Rightarrow> string" where
  "regionToUse fl env_REGION =
     (case js_or (f_region fl) env_REGION of
        None \<Rightarrow> ''eu''
      | Some r \<Rightarrow> if r = [] then ''eu'' else r)"

definition cli_fetchOddsForKey ::
  "(real \<Rightarrow> string) \<Rightarrow> network \<Rightarrow> string option \<Rightarrow> timestamp \<Rightarrow> string \<Rightarrow> flags
     \<Rightarrow> error + cli_files" where
  "cli_fetchOddsForKey numstr net env_REGION now sportKey fl =
     (let regionToUse = regionToUse fl env_REGION
      in case net sportKey regionToUse of
           Rejected msg \<Rightarrow> Inl (TypeError msg)
         | Response ok status body \<Rightarrow>
             if \<not> ok then Inl (Error (''Odds fetch failed: '' @ status))
             else (case body of
                     JsonInvalid \<Rightarrow> Inl (SyntaxError ''Unexpected token'')
                   | JsonString s \<Rightarrow> Inl (TypeError ''raw.map is not a function'')
                   | JsonOther \<Rightarrow> Inl (TypeError ''raw.map is not a function'')
                   | JsonArray raw \<Rightarrow>
                       (case cli_mapped raw of
                          Inl e \<Rightarrow> Inl e
                        | Inr mapped \<Rightarrow>
                            (let filtered = filterByNames mapped (f_include fl)
                             in Inr \<lparr>json_file =
                                        \<lparr>cj_sportKey = sportKey, cj_region = regionToUse,
                                         cj_fetchedAt = toISOString now, cj_events = filtered\<rparr>,
                                      csv_file =
                                        (if f_writeCsv fl
                                         then Some (toCsv numstr
                                                      (map (cli_row numstr regionToUse) filtered))
                                         else None)\<rparr>))))"

text \<open>The command \<^verbatim>\<open>fetch <sport_key>\<close> of the command line, inside the try block.\<close>

definition cli_main_fetch ::
  "(real \<Rightarrow> string) \<Rightarrow> network \<Rightarrow> string option \<Rightarrow> timestamp \<Rightarrow> string option \<Rightarrow> flags
     \<Rightarrow> cli_files run" where
  "cli_main_fetch numstr net env_REGION now arg fl =
     (case arg of
        None \<Rightarrow>
          Exit1 (Error (''Usage: node odds.js fetch <sport_key> [--include '' @ [DQUOTE] @ ''A|B''
                        @ [DQUOTE] @ ''] [--csv] [--region eu|uk|us|au]''))
      | Some sportKey \<Rightarrow>
          (case cli_fetchOddsForKey numstr net env_REGION now sportKey fl of
             Inl e \<Rightarrow> Exit1 e
           | Inr out \<Rightarrow> Completed out))"

subsection \<open>The history scan, \<^verbatim>\<open>scan_log.js\<close>\<close>

text \<open>
  \<^verbatim>\<open>
  async function countEvents(sportKey, region) {
    try {
      const data = await fetchJSON(url);
      return Array.isArray(data) ? data.length : 0;
    } catch {
      return -1; // error marker
    }
  }\<close>
  \<^verbatim>\<open>fetchJSON\<close> awaits \<^verbatim>\<open>fetch\<close>, throws when the \<^verbatim>\<open>ok\<close> flag is false and returns \<^verbatim>\<open>res.json()\<close>:
  the \<^verbatim>\<open>catch\<close> receives a rejected fetch, a response that is not ok, and a body that is
  not JSON.
\<close>

definition countEvents :: "network \<Rightarrow> string \<Rightarrow> string \<Rightarrow> int" where
  "countEvents net sportKey region =
     (case net sportKey region of
        Rejected msg \<Rightarrow> - 1
      | Response ok status body \<Rightarrow>
          if \<not> ok then - 1
          else (case body of
                  JsonInvalid \<Rightarrow> - 1
                | JsonArray data \<Rightarrow> int (length data)
                | JsonString s \<Rightarrow> 0
                | JsonOther \<Rightarrow> 0))"

record sport =
  s_key :: string
  s_title :: string

record scan_row =
  r_ts :: string
  r_key :: string
  r_title :: string
  r_region :: string
  r_count :: int

text \<open>
  \<^verbatim>\<open>
  for (const s of sports) {
    for (const r of REGIONS) {
      const n = await countEvents(s.key, r);
      rows.push({ ts, key: s.key, title: s.title, region: r, count: n });
    }
  }\<close>
\<close>

definition scan_rows :: "network \<Rightarrow> string \<Rightarrow> sport list \<Rightarrow> string list \<Rightarrow> scan_row list" where
  "scan_rows net ts sports REGIONS =
     concat (map (\<lambda>s. map (\<lambda>r. \<lparr>r_ts = ts, r_key = s_key s, r_title = s_title s, r_region = r,
                                   r_count = countEvents net (s_key s) r\<rparr>) REGIONS) sports)"

section \<open>HistoryLogger\<close>

text \<open>\<^verbatim>\<open>JSON.stringify\<close> of a string: quoted, with the escapes of the JSON grammar.\<close>

abbreviation BACKSLASH :: char where "BACKSLASH \<equiv> CHR 0x5C"

definition hex_char :: "nat \<Rightarrow> char" where
  "hex_char d = ''0123456789abcdef'' ! (d mod 16)"

definition json_escape :: "char \<Rightarrow> string" where
  "json_escape c =
     (if c = DQUOTE then [BACKSLASH, DQUOTE]
      else if c = BACKSLASH then [BACKSLASH, BACKSLASH]
      else if c = CHR 0x08 then [BACKSLASH, CHR ''b'']
      else if c = CHR 0x09 then [BACKSLASH, CHR ''t'']
      else if c = NEWLINE then [BACKSLASH, CHR ''n'']
      else if c = CHR 0x0C then [BACKSLASH, CHR ''f'']
      else if c = CHR 0x0D then [BACKSLASH, CHR ''r'']
      else if (of_char c :: nat) < 32
        then [BACKSLASH, CHR ''u'', CHR ''0'', CHR ''0'',
              hex_char (of_char c div 16), hex_char (of_char c)]
      else [c])"

definition JSON_stringify :: "string \<Rightarrow> string" where
  "JSON_stringify s = [DQUOTE] @ concat (map json_escape s) @ [DQUOTE]"

text \<open>An integer in a template literal.\<close>

definition int_toString :: "int \<Rightarrow> string" where
  "int_toString n = (if n < 0 then ''-'' @ dec (nat (- n)) else dec (nat n))"

text \<open>
  \<^verbatim>\<open>
  const header = 'timestamp,key,title,region,count\n';
  const line = (o) =>
    `${o.ts},${JSON.stringify(o.key)},${JSON.stringify(o.title)},${o.region},${o.count}\n`;
  const outPath = 'scan_history.csv';
  if (!fs.existsSync(outPath)) fs.writeFileSync(outPath, header);
  fs.appendFileSync(outPath, rows.map(line).join(''));\<close>
  The file is \<open>None\<close> while it does not exist and \<open>Some\<close> of its content afterwards.
\<close>

definition header :: string where
  "header = ''timestamp,key,title,region,count'' @ [NEWLINE]"

definition line :: "scan_row \<Rightarrow> string" where
  "line r =
     r_ts r @ '','' @ JSON_stringify (r_key r) @ '','' @ JSON_stringify (r_title r) @ '',''
     @ r_region r @ '','' @ int_toString (r_count r) @ [NEWLINE]"

definition appendHistory :: "string option \<Rightarrow> scan_row list \<Rightarrow> string option" where
  "appendHistory file rows =
     (let written = (case file of None \<Rightarrow> header | Some content \<Rightarrow> content)
      in Some (written @ concat (map line rows)))"

text \<open>The main function of the scan, from the catalog of active tennis competitions.\<close>

definition scan_main ::
  "network \<Rightarrow> string list \<Rightarrow> timestamp \<Rightarrow> error + sport list \<Rightarrow> string option \<Rightarrow> string option run" where
  "scan_main net REGIONS now catalog file =
     (case catalog of
        Inl e \<Rightarrow> Exit1 e
      | Inr sports \<Rightarrow> Completed (appendHistory file (scan_rows net (toISOString now) sports REGIONS)))"

text \<open>A sequence of invocations of the logger, each with its rows.\<close>

fun invocations :: "string option \<Rightarrow> scan_row list list \<Rightarrow> string option" where
  "invocations file [] = file"
| "invocations file (rows # rest) = invocations (appendHistory file rows) rest"

text \<open>The lines of a file are counted by their line breaks.\<close>

definition line_count :: "string \<Rightarrow> nat" where
  "line_count content = length (filter (\<lambda>c. c = NEWLINE) content)"

definition lines_of :: "string option \<Rightarrow> nat" where
  "lines_of file = (case file of None \<Rightarrow> 0 | Some content \<Rightarrow> line_count content)"


section \<open>A reader of comma-separated text\<close>

text \<open>
  Modelled from the spec: the conformant CSV reader of the round-trip law is not part of
  the repository.  This one follows RFC 4180: fields are separated by commas and records by
  line breaks, a line break being the pair carriage return, line feed of the RFC or the
  single line feed that \<open>toCsv\<close> writes; a field may be enclosed in double quotes, inside
  which commas, carriage returns and line feeds are data and a doubled double quote stands
  for one; the last record may or may not end with a line break; the first record is the
  header, and every other record is read as the fields of the header's names.  A carriage
  return that is not followed by a line feed is kept as a character of the field.
\<close>

definition add_char :: "char \<Rightarrow> string list list \<Rightarrow> string list list" where
  "add_char c recs =
     (case recs of
        [] \<Rightarrow> [[[c]]]
      | [] # rest \<Rightarrow> [[c]] # rest
      | (f # fs) # rest \<Rightarrow> ((c # f) # fs) # rest)"

definition new_field :: "string list list \<Rightarrow> string list list" where
  "new_field recs = (case recs of [] \<Rightarrow> [[[], []]] | r # rest \<Rightarrow> ([] # r) # rest)"

definition new_record :: "string list list \<Rightarrow> string list list" where
  "new_record recs = [[]] # recs"

fun csv_plain :: "string \<Rightarrow> string list list"
  and csv_quoted :: "string \<Rightarrow> string list list" where
  "csv_plain [] = [[[]]]"
| "csv_plain (c # cs) =
     (if c = COMMA then new_field (csv_plain cs)
      else if c = NEWLINE then new_record (csv_plain cs)
      else if c = RETURN \<and> take 1 cs = [NEWLINE] then csv_plain cs
      else if c = DQUOTE then csv_quoted cs
      else add_char c (csv_plain cs))"
| "csv_quoted [] = [[[]]]"
| "csv_quoted (c # cs) =
     (if c = DQUOTE
      then (case cs of
              [] \<Rightarrow> csv_plain []
            | d # ds \<Rightarrow> if d = DQUOTE then add_char DQUOTE (csv_quoted ds) else csv_plain cs)
      else add_char c (csv_quoted cs))"

definition csv_records :: "string \<Rightarrow> string list list" where
  "csv_records text =
     (let recs = csv_plain text in if last recs = [[]] then butlast recs else recs)"

definition csv_read :: "string \<Rightarrow> (string \<times> string) list list" where
  "csv_read text = (case csv_records text of [] \<Rightarrow> [] | hs # recs \<Rightarrow> map (zip hs) recs)"

text \<open>The string that a reader can give back for a value: its string form, empty for
  \<^verbatim>\<open>null\<close> and \<^verbatim>\<open>undefined\<close>.\<close>

definition cell_text :: "(real \<Rightarrow> string) \<Rightarrow> jsval \<Rightarrow> string" where
  "cell_text numstr v = (if v = JNull \<or> v = JUndefined then [] else String_js numstr v)"

definition as_strings :: "(real \<Rightarrow> string) \<Rightarrow> row \<Rightarrow> (string \<times> string) list" where
  "as_strings numstr r = map (\<lambda>(k, v). (k, cell_text numstr v)) r"

text \<open>The quoting rule of \<open>esc\<close> on the string of a field.\<close>

definition esc_str :: "string \<Rightarrow> string" where
  "esc_str s = (if needs_quoting s then [DQUOTE] @ replace_quotes s @ [DQUOTE] else s)"

text \<open>Putting a whole string in front of the field being read.\<close>

definition add_str :: "string \<Rightarrow> string list list \<Rightarrow> string list list" where
  "add_str s recs = foldr add_char s recs"

definition sample_rows :: "row list" where
  "sample_rows =
     [[(''a'', JStr ''x,y''), (''b'', JNull)],
      [(''a'', JStr [DQUOTE, NEWLINE]), (''b'', JStr ''z'')]]"

section \<open>Reading a persisted decimal\<close>



section \<open>Reading the history file\<close>

text \<open>
  The lines of a text: each line break ends a line, and characters after the last line
  break form a last line.
\<close>

fun split_lines :: "string \<Rightarrow> string list" where
  "split_lines [] = []"
| "split_lines (c # cs) =
     (if c = NEWLINE then [] # split_lines cs
      else (case split_lines cs of [] \<Rightarrow> [[c]] | l # ls \<Rightarrow> (c # l) # ls))"

text \<open>A row whose timestamp and region are free of line breaks.\<close>

definition single_line :: "scan_row \<Rightarrow> bool" where
  "single_line r = (NEWLINE \<notin> set (r_ts r) \<and> NEWLINE \<notin> set (r_region r))"

text \<open>The text of the line of a row, without its line break.\<close>

definition line_text :: "scan_row \<Rightarrow> string" where
  "line_text r =
     r_ts r @ '','' @ JSON_stringify (r_key r) @ '','' @ JSON_stringify (r_title r) @ '',''
     @ r_region r @ '','' @ int_toString (r_count r)"

section \<open>Sample payloads\<close>

text \<open>Concrete events on which the statements below are evaluated.\<close>

definition h2h_market :: "(string \<times> real) list \<Rightarrow> market" where
  "h2h_market os =
     \<lparr>m_key = ''h2h'',
      m_outcomes = Some (map (\<lambda>(n, p). \<lparr>o_name = Some n, o_price = Some (Fin p)\<rparr>) os)\<rparr>"






definition event_with :: "bookmaker list \<Rightarrow> raw_event" where
  "event_with bs =
     \<lparr>e_id = ''ev1'', e_commence_time = ''2026-01-01T10:00:00Z'', e_bookmakers = Some bs\<rparr>"

definition bk_prices :: "real list \<Rightarrow> bookmaker" where
  "bk_prices ps =
     \<lparr>b_key = Some ''delta'', b_title = Some ''Delta'',
      b_markets = Some [h2h_market (map (\<lambda>p. (''P'', p)) ps)]\<rparr>"

definition sample_time :: timestamp where
  "sample_time =
     \<lparr>t_year = 2026, t_month = 11, t_day = 2, t_hour = 16, t_minute = 21, t_second = 5,
      t_millis = 123\<rparr>"

text \<open>Networks that answer every market request the same way.\<close>

definition net_status :: "bool \<Rightarrow> string \<Rightarrow> network" where
  "net_status ok status = (\<lambda>sportKey region. Response ok status (JsonArray []))"

definition net_atp_down :: network where
  "net_atp_down =
     (\<lambda>sportKey region.
        if sportKey = ''tennis_atp'' then Rejected ''fetch failed''
        else Response True ''200 OK'' (JsonArray []))"


definition atp :: sport where
  "atp = \<lparr>s_key = ''tennis_atp'', s_title = ''ATP''\<rparr>"

definition net_events :: "raw_event list \<Rightarrow> network" where
  "net_events evs = (\<lambda>sportKey region. Response True ''200 OK'' (JsonArray evs))"

definition csv_flags :: flags where
  "csv_flags = \<lparr>f_include = None, f_writeCsv = True, f_region = None\<rparr>"

definition atp_row :: "int \<Rightarrow> scan_row" where
  "atp_row n =
     \<lparr>r_ts = toISOString sample_time, r_key = ''tennis_atp'', r_title = ''ATP'',
      r_region = ''eu'', r_count = n\<rparr>"

section \<open>Rounding to doubles\<close>

lemma pow2_powr: "pow2 k = 2 powr (of_int k)"
  by (simp add: pow2_def powr_real_of_int inverse_eq_divide)

lemma pow2_pos [simp]: "0 < pow2 k"
  by (simp add: pow2_powr)

lemma pow2_nz [simp]: "pow2 k \<noteq> 0"
  using pow2_pos [of k] by linarith

lemma pow2_add: "pow2 (a + b) = pow2 a * pow2 b"
  by (simp add: pow2_powr powr_add)

lemma pow2_mono: "a \<le> b \<Longrightarrow> pow2 a \<le> pow2 b"
  by (simp add: pow2_powr)

lemma pow2_less: "a < b \<Longrightarrow> pow2 a < pow2 b"
  by (simp add: pow2_powr)

lemma exponent_bounds:
  assumes "0 < a"
  shows "pow2 \<lfloor>log 2 a\<rfloor> \<le> a" and "a < pow2 (\<lfloor>log 2 a\<rfloor> + 1)"
proof -
  have "of_int \<lfloor>log 2 a\<rfloor> \<le> log 2 a" by simp
  then have "2 powr (of_int \<lfloor>log 2 a\<rfloor>) \<le> 2 powr (log 2 a)" by simp
  then show "pow2 \<lfloor>log 2 a\<rfloor> \<le> a" using assms by (simp add: pow2_powr)
  have "log 2 a < of_int (\<lfloor>log 2 a\<rfloor> + 1)" by linarith
  then have "2 powr (log 2 a) < 2 powr (of_int (\<lfloor>log 2 a\<rfloor> + 1))" by simp
  then show "a < pow2 (\<lfloor>log 2 a\<rfloor> + 1)" using assms by (simp add: pow2_powr)
qed

lemma exponent_eq:
  assumes "pow2 k \<le> a" "a < pow2 (k + 1)"
  shows "\<lfloor>log 2 a\<rfloor> = k"
proof -
  have pos: "0 < a" using assms(1) pow2_pos [of k] by linarith
  have "of_int k \<le> log 2 a"
    using assms(1) pos by (simp add: pow2_powr le_log_iff)
  moreover have "log 2 a < of_int (k + 1)"
    using assms(2) pos by (simp add: pow2_powr log_less_iff)
  ultimately show ?thesis by linarith
qed

lemma rhe_error: "\<bar>of_int (round_half_even r) - r\<bar> \<le> 1 / 2"
  unfolding round_half_even_def Let_def by (auto; linarith)

lemma rhe_of_int: "round_half_even (of_int n) = n"
  by (simp add: round_half_even_def)

lemma rhe_mono:
  assumes "r \<le> s"
  shows "round_half_even r \<le> round_half_even s"
proof (cases "\<lfloor>r\<rfloor> = \<lfloor>s\<rfloor>")
  case True
  then show ?thesis using assms unfolding round_half_even_def Let_def by (auto; linarith)
next
  case False
  then have "\<lfloor>r\<rfloor> < \<lfloor>s\<rfloor>" using assms floor_mono [of r s] by linarith
  moreover have "round_half_even r \<le> \<lfloor>r\<rfloor> + 1" unfolding round_half_even_def Let_def by auto
  moreover have "\<lfloor>s\<rfloor> \<le> round_half_even s" unfolding round_half_even_def Let_def by auto
  ultimately show ?thesis by linarith
qed


lemma rhe_ge: "of_int k \<le> r \<Longrightarrow> k \<le> round_half_even r"
  using rhe_mono [of "of_int k" r] by (simp add: rhe_of_int)

lemma rhe_le: "r \<le> of_int k \<Longrightarrow> round_half_even r \<le> k"
  using rhe_mono [of r "of_int k"] by (simp add: rhe_of_int)

text \<open>Rounding a positive number of the normal range.\<close>


lemma round_double_normal:
  assumes lo: "pow2 (- 1022) \<le> a" and hi: "a < pow2 1023"
  shows "\<exists>m. round_double a = Fin m \<and> 0 < m \<and> \<bar>m - a\<bar> \<le> a * unit_roundoff
             \<and> pow2 \<lfloor>log 2 a\<rfloor> \<le> m \<and> m \<le> pow2 (\<lfloor>log 2 a\<rfloor> + 1)"
proof -
  have pos: "0 < a" using lo pow2_pos [of "- 1022"] by linarith
  define e where "e = \<lfloor>log 2 a\<rfloor>"
  have eb: "pow2 e \<le> a" "a < pow2 (e + 1)" unfolding e_def using exponent_bounds [OF pos] by auto
  have e_lo: "- 1022 \<le> e"
  proof (rule ccontr)
    assume "\<not> - 1022 \<le> e"
    then have "e + 1 \<le> - 1022" by linarith
    then have "pow2 (e + 1) \<le> pow2 (- 1022)" by (rule pow2_mono)
    with eb(2) lo show False by linarith
  qed
  have e_hi: "e \<le> 1022"
  proof (rule ccontr)
    assume "\<not> e \<le> 1022"
    then have "1023 \<le> e" by linarith
    then have "pow2 1023 \<le> pow2 e" by (rule pow2_mono)
    with eb(1) hi show False by linarith
  qed
  define q where "q = e - 52"
  have "max (e - 52) (- 1074) = e - 52" using e_lo by linarith
  then have q: "quantum a = q" unfolding quantum_def q_def e_def [symmetric] by simp
  define n where "n = round_half_even (a / pow2 q)"
  define m where "m = of_int n * pow2 q"
  have "e = 52 + q" "e + 1 = 53 + q" by (simp_all add: q_def)
  then have pe: "pow2 e = pow2 52 * pow2 q" "pow2 (e + 1) = pow2 53 * pow2 q"
    by (simp_all only: pow2_add)
  have p52: "pow2 52 = of_int (2 ^ 52)" "pow2 53 = of_int (2 ^ 53)" by (simp_all add: pow2_def)
  have "of_int (2 ^ 52) \<le> a / pow2 q"
    using eb(1) pe(1) p52(1) by (simp add: pos_le_divide_eq)
  then have n_lo: "2 ^ 52 \<le> n" unfolding n_def by (rule rhe_ge)
  have "a / pow2 q \<le> of_int (2 ^ 53)"
    using eb(2) pe(2) p52(2) by (simp add: pos_divide_le_eq)
  then have n_hi: "n \<le> 2 ^ 53" unfolding n_def by (rule rhe_le)
  have m_lo: "pow2 e \<le> m"
  proof -
    have "of_int (2 ^ 52) * pow2 q \<le> of_int n * pow2 q"
      using n_lo by (intro mult_right_mono) (simp_all add: less_imp_le)
    then show ?thesis unfolding m_def pe(1) p52(1) by simp
  qed
  have m_hi: "m \<le> pow2 (e + 1)"
  proof -
    have "of_int n * pow2 q \<le> of_int (2 ^ 53) * pow2 q"
      using n_hi by (intro mult_right_mono) (simp_all add: less_imp_le)
    then show ?thesis unfolding m_def pe(2) p52(2) by simp
  qed
  have m_pos: "0 < m" using m_lo pow2_pos [of e] by linarith
  have "pow2 (e + 1) \<le> pow2 1023" using e_hi by (intro pow2_mono) simp
  moreover have "pow2 1023 < pow2 1024" by (intro pow2_less) simp
  ultimately have no_ov: "\<not> pow2 1024 \<le> m" using m_hi by linarith
  have r: "round_double a = Fin m"
    using pos no_ov m_pos
    by (simp add: round_double_def Let_def q n_def [symmetric] m_def [symmetric])
  have "\<bar>of_int n - a / pow2 q\<bar> \<le> 1 / 2" unfolding n_def by (rule rhe_error)
  then have "\<bar>of_int n - a / pow2 q\<bar> * pow2 q \<le> 1 / 2 * pow2 q"
    by (intro mult_right_mono) (simp_all add: less_imp_le)
  moreover have "\<bar>of_int n - a / pow2 q\<bar> * pow2 q = \<bar>m - a\<bar>"
  proof -
    have "\<bar>pow2 q\<bar> = pow2 q" using pow2_pos [of q] by linarith
    then have "\<bar>of_int n - a / pow2 q\<bar> * pow2 q = \<bar>(of_int n - a / pow2 q) * pow2 q\<bar>"
      by (simp only: abs_mult)
    also have "(of_int n - a / pow2 q) * pow2 q = m - a"
      unfolding m_def by (simp add: left_diff_distrib)
    finally show ?thesis .
  qed
  ultimately have err: "\<bar>m - a\<bar> \<le> pow2 q / 2" by simp
  have "pow2 q / 2 = pow2 e * unit_roundoff"
    unfolding pe(1) p52(1) unit_roundoff_def by simp
  also have "\<dots> \<le> a * unit_roundoff"
    using eb(1) by (intro mult_right_mono) (simp_all add: unit_roundoff_def)
  finally have "\<bar>m - a\<bar> \<le> a * unit_roundoff" using err by linarith
  with r m_pos m_lo m_hi show ?thesis unfolding e_def by blast
qed

lemma round_double_mono:
  assumes "pow2 (- 1022) \<le> a" "a \<le> b" "b < pow2 1023"
    and "round_double a = Fin ma" "round_double b = Fin mb"
  shows "ma \<le> mb"
proof -
  have posa: "0 < a" using assms(1) pow2_pos [of "- 1022"] by linarith
  have posb: "0 < b" using posa assms(2) by linarith
  have ra: "pow2 (- 1022) \<le> a" "a < pow2 1023" using assms by auto
  have rb: "pow2 (- 1022) \<le> b" "b < pow2 1023" using assms by auto
  let ?ea = "\<lfloor>log 2 a\<rfloor>" and ?eb = "\<lfloor>log 2 b\<rfloor>"
  from round_double_normal [OF ra] assms(4)
  have a: "pow2 ?ea \<le> ma" "ma \<le> pow2 (?ea + 1)" by auto
  from round_double_normal [OF rb] assms(5)
  have b: "pow2 ?eb \<le> mb" "mb \<le> pow2 (?eb + 1)" by auto
  have le: "?ea \<le> ?eb" using assms(2) posa by (intro floor_mono) simp
  show ?thesis
  proof (cases "?ea = ?eb")
    case False
    then have "?ea + 1 \<le> ?eb" using le by linarith
    then have "pow2 (?ea + 1) \<le> pow2 ?eb" by (rule pow2_mono)
    with a(2) b(1) show ?thesis by linarith
  next
    case True
    have e_lo: "- 1022 \<le> ?ea"
    proof (rule ccontr)
      assume "\<not> - 1022 \<le> ?ea"
      then have "?ea + 1 \<le> - 1022" by linarith
      then have "pow2 (?ea + 1) \<le> pow2 (- 1022)" by (rule pow2_mono)
      with exponent_bounds(2) [OF posa] ra(1) show False by linarith
    qed
    have e_hi: "?ea \<le> 1022"
    proof (rule ccontr)
      assume "\<not> ?ea \<le> 1022"
      then have "1023 \<le> ?ea" by linarith
      then have "pow2 1023 \<le> pow2 ?ea" by (rule pow2_mono)
      with exponent_bounds(1) [OF posa] ra(2) show False by linarith
    qed
    define q where "q = ?ea - 52"
    have "max (?ea - 52) (- 1074) = ?ea - 52" using e_lo by linarith
    then have qa: "quantum a = q" and qb: "quantum b = q"
      unfolding quantum_def q_def using True by simp_all
    define na where "na = round_half_even (a / pow2 q)"
    define nb where "nb = round_half_even (b / pow2 q)"
    have "a / pow2 q \<le> b / pow2 q" using assms(2) by (simp add: divide_right_mono less_imp_le)
    then have n: "na \<le> nb" unfolding na_def nb_def by (rule rhe_mono)
    have "pow2 (?ea + 1) \<le> pow2 1023" using e_hi by (intro pow2_mono) simp
    moreover have "pow2 1023 < pow2 1024" by (intro pow2_less) simp
    ultimately have lim: "pow2 (?ea + 1) < pow2 1024" by linarith
    obtain m where m: "round_double a = Fin m" "0 < m" using round_double_normal [OF ra] by blast
    obtain m' where m': "round_double b = Fin m'" "0 < m'" using round_double_normal [OF rb] by blast
    have "ma = of_int na * pow2 q"
      using assms(4) posa
      by (auto simp: round_double_def Let_def qa na_def split: if_splits)
    moreover have "mb = of_int nb * pow2 q"
      using assms(5) posb
      by (auto simp: round_double_def Let_def qb nb_def split: if_splits)
    moreover have "of_int na * pow2 q \<le> of_int nb * pow2 q"
      using n by (intro mult_right_mono) (simp_all add: less_imp_le)
    ultimately show ?thesis by simp
  qed
qed


section \<open>Error analysis\<close>


lemma rd_normal:
  assumes "normal_range x"
  shows "round_double x = Fin (rd x)" and "0 < rd x"
    and "x * (1 - unit_roundoff) \<le> rd x" and "rd x \<le> x * (1 + unit_roundoff)"
proof -
  from assms have r: "pow2 (- 1022) \<le> x" "x < pow2 1023" by (simp_all add: normal_range_def)
  from round_double_normal [OF r] obtain m where
    m: "round_double x = Fin m" "0 < m" "\<bar>m - x\<bar> \<le> x * unit_roundoff" by blast
  have e: "rd x = m" by (simp add: rd_def m(1))
  show "round_double x = Fin (rd x)" by (simp add: e m(1))
  show "0 < rd x" by (simp add: e m(2))
  have "x - x * unit_roundoff \<le> m" "m \<le> x + x * unit_roundoff" using m(3) by linarith+
  then show "x * (1 - unit_roundoff) \<le> rd x" "rd x \<le> x * (1 + unit_roundoff)"
    by (simp_all add: e algebra_simps)
qed

lemma rd_mono:
  assumes "normal_range x" "normal_range y" "x \<le> y"
  shows "rd x \<le> rd y"
  using round_double_mono [of x y "rd x" "rd y"] rd_normal(1) [OF assms(1)] rd_normal(1) [OF assms(2)]
    assms by (simp add: normal_range_def)

lemma js_div_pos:
  assumes "0 < x" "0 < y" "normal_range (x / y)"
  shows "js_div (Fin x) (Fin y) = Fin (rd (x / y))"
  using assms rd_normal(1) [OF assms(3)]
  by (simp add: js_div_def is_nan_def is_inf_def is_zero_def Let_def)

lemma js_add_pos:
  assumes "0 \<le> x" "0 < y" "normal_range (x + y)"
  shows "js_add (Fin x) (Fin y) = Fin (rd (x + y))"
  using assms rd_normal(1) [OF assms(3)]
  by (simp add: js_add_def is_nan_def is_inf_def)


lemma roundoff_facts:
  "0 < 1 - unit_roundoff" "1 - unit_roundoff \<le> 1" "1 \<le> 1 + unit_roundoff"
  "(1 + unit_roundoff) * (1 - unit_roundoff) \<le> 1" "0 < unit_roundoff"
  "1 / 2 \<le> 1 - unit_roundoff" "1 + unit_roundoff \<le> 2"
  by (simp_all add: unit_roundoff_def algebra_simps)

lemma sum_list_nonneg_real:
  fixes xs :: "real list"
  shows "\<forall>x\<in>set xs. 0 \<le> x \<Longrightarrow> 0 \<le> sum_list xs"
  by (induction xs) auto

lemma fold_sum:
  assumes "0 \<le> acc" and "\<forall>a\<in>set as. pow2 (- 1022) \<le> a"
    and "(acc + sum_list as) * (1 + unit_roundoff) ^ length as < pow2 1023"
  shows "foldl js_add (Fin acc) (map Fin as) = Fin (fsum acc as)
         \<and> (acc + sum_list as) * (1 - unit_roundoff) ^ length as \<le> fsum acc as
         \<and> fsum acc as \<le> (acc + sum_list as) * (1 + unit_roundoff) ^ length as"
  using assms
proof (induction as arbitrary: acc)
  case Nil
  then show ?case by simp
next
  case (Cons a rest)
  let ?U = "1 + unit_roundoff" and ?L = "1 - unit_roundoff"
  let ?n = "length rest"
  define x where "x = acc + a"
  define \<Sigma> where "\<Sigma> = sum_list rest"
  have a_lo: "pow2 (- 1022) \<le> a" using Cons.prems(2) by simp
  have a_pos: "0 < a" using a_lo pow2_pos [of "- 1022"] by linarith
  have rest_lo: "\<forall>b\<in>set rest. pow2 (- 1022) \<le> b" using Cons.prems(2) by simp
  have "\<forall>b\<in>set rest. 0 \<le> b"
  proof
    fix b assume "b \<in> set rest"
    then have "pow2 (- 1022) \<le> b" using rest_lo by blast
    then show "0 \<le> b" using pow2_pos [of "- 1022"] by linarith
  qed
  then have S0: "0 \<le> \<Sigma>" unfolding \<Sigma>_def by (rule sum_list_nonneg_real)
  have x_pos: "0 < x" unfolding x_def using Cons.prems(1) a_pos by linarith
  have U1: "1 \<le> ?U" and L1: "?L \<le> 1" and L0: "0 < ?L" using roundoff_facts by auto
  have Un: "1 \<le> ?U ^ n" for n using U1 by (rule one_le_power)
  have Un0: "0 \<le> ?U ^ n" for n using Un [of n] by linarith
  have Ln0: "0 \<le> ?L ^ n" for n using L0 by simp
  have big: "(x + \<Sigma>) * ?U ^ Suc ?n < pow2 1023"
    using Cons.prems(3) by (simp add: x_def \<Sigma>_def add.assoc)
  have "x \<le> (x + \<Sigma>) * 1" using S0 by simp
  also have "\<dots> \<le> (x + \<Sigma>) * ?U ^ Suc ?n"
    using Un [of "Suc ?n"] x_pos S0 by (intro mult_left_mono) linarith+
  finally have "x < pow2 1023" using big by linarith
  moreover have "pow2 (- 1022) \<le> x" unfolding x_def using a_lo Cons.prems(1) by linarith
  ultimately have nr: "normal_range x" by (simp add: normal_range_def)
  define m where "m = rd x"
  have m: "0 < m" "x * ?L \<le> m" "m \<le> x * ?U"
    unfolding m_def using rd_normal [OF nr] by auto
  have step: "js_add (Fin acc) (Fin a) = Fin m"
    unfolding m_def x_def using js_add_pos [OF Cons.prems(1) a_pos] nr by (simp add: x_def)
  have up1: "m + \<Sigma> \<le> (x + \<Sigma>) * ?U"
  proof -
    have "\<Sigma> \<le> \<Sigma> * ?U" using S0 U1 by (simp add: mult_le_cancel_left1)
    then show ?thesis using m(3) by (simp add: distrib_right)
  qed
  have lo1: "(x + \<Sigma>) * ?L \<le> m + \<Sigma>"
  proof -
    have "\<Sigma> * ?L \<le> \<Sigma>" using S0 L1 by (simp add: mult_le_cancel_left2)
    then show ?thesis using m(2) by (simp add: distrib_right)
  qed
  have up2: "(m + \<Sigma>) * ?U ^ ?n \<le> (x + \<Sigma>) * ?U ^ Suc ?n"
  proof -
    have "(m + \<Sigma>) * ?U ^ ?n \<le> ((x + \<Sigma>) * ?U) * ?U ^ ?n"
      using up1 Un0 [of ?n] by (rule mult_right_mono)
    then show ?thesis by (simp add: mult.assoc)
  qed
  have lo2: "(x + \<Sigma>) * ?L ^ Suc ?n \<le> (m + \<Sigma>) * ?L ^ ?n"
  proof -
    have "((x + \<Sigma>) * ?L) * ?L ^ ?n \<le> (m + \<Sigma>) * ?L ^ ?n"
      using lo1 Ln0 [of ?n] by (rule mult_right_mono)
    then show ?thesis by (simp add: mult.assoc)
  qed
  have pre: "(m + sum_list rest) * ?U ^ length rest < pow2 1023"
    using up2 big by (simp add: \<Sigma>_def)
  have m0: "0 \<le> m" using m(1) by linarith
  from Cons.IH [OF m0 rest_lo pre]
  have IH: "foldl js_add (Fin m) (map Fin rest) = Fin (fsum m rest)"
    "(m + \<Sigma>) * ?L ^ ?n \<le> fsum m rest" "fsum m rest \<le> (m + \<Sigma>) * ?U ^ ?n"
    by (simp_all add: \<Sigma>_def)
  have f: "fsum acc (a # rest) = fsum m rest" by (simp add: m_def x_def)
  have "foldl js_add (Fin acc) (map Fin (a # rest)) = Fin (fsum acc (a # rest))"
    using IH(1) step f by simp
  moreover have "(acc + sum_list (a # rest)) * ?L ^ length (a # rest) \<le> fsum acc (a # rest)"
    using lo2 IH(2) f by (simp add: x_def \<Sigma>_def add.assoc)
  moreover have "fsum acc (a # rest) \<le> (acc + sum_list (a # rest)) * ?U ^ length (a # rest)"
    using up2 IH(3) f by (simp add: x_def \<Sigma>_def add.assoc)
  ultimately show ?case by blast
qed


lemma pow2_neg: "pow2 (- k) = 1 / pow2 k"
proof -
  have "pow2 k * pow2 (- k) = 1" using pow2_add [of k "- k"] by (simp add: pow2_def)
  then show ?thesis by (simp add: field_simps)
qed

lemma pow2_Suc: "pow2 (k + 1) = 2 * pow2 k"
  using pow2_add [of k 1] by (simp add: pow2_def)

lemma low_power:
  assumes "n \<le> 2 ^ 21"
  shows "1 - 1 / 2 ^ 32 \<le> (1 - unit_roundoff) ^ n"
proof -
  have "real n \<le> 2 ^ 21" using assms by (metis of_nat_le_iff of_nat_numeral of_nat_power)
  then have "real n * unit_roundoff \<le> 2 ^ 21 * unit_roundoff"
    using roundoff_facts(5) by (simp add: mult_right_mono)
  also have "\<dots> = 1 / 2 ^ 32" by (simp add: unit_roundoff_def)
  finally have a: "real n * unit_roundoff \<le> 1 / 2 ^ 32" .
  have "- 1 \<le> - unit_roundoff" using roundoff_facts(1) by linarith
  from Bernoulli_inequality [OF this, of n]
  have "1 - real n * unit_roundoff \<le> (1 - unit_roundoff) ^ n" by simp
  then show ?thesis using a by linarith
qed

lemma high_power:
  assumes "n \<le> 2 ^ 21"
  shows "(1 + unit_roundoff) ^ n \<le> 1 / (1 - unit_roundoff) ^ n"
proof -
  have Lp: "0 < (1 - unit_roundoff) ^ n" using roundoff_facts(1) by simp
  have "(1 + unit_roundoff) ^ n * (1 - unit_roundoff) ^ n
        = ((1 + unit_roundoff) * (1 - unit_roundoff)) ^ n" by (simp add: power_mult_distrib)
  also have "\<dots> \<le> 1"
    using roundoff_facts(4) roundoff_facts(1) roundoff_facts(3)
    by (intro power_le_one) (simp_all add: unit_roundoff_def)
  finally show ?thesis using Lp by (simp add: pos_le_divide_eq)
qed

lemma high_power_two:
  assumes "n \<le> 2 ^ 21"
  shows "(1 + unit_roundoff) ^ n \<le> 2"
proof -
  have Lp: "0 < (1 - unit_roundoff) ^ n" using roundoff_facts(1) by simp
  have "1 / (1 - unit_roundoff) ^ n \<le> 1 / (1 - 1 / 2 ^ 32)"
    using low_power [OF assms] by (intro divide_left_mono) (simp_all add: Lp)
  also have "\<dots> \<le> (2 :: real)" by simp
  finally show ?thesis using high_power [OF assms] by linarith
qed

lemma implied_range:
  assumes "pow2 (- 400) \<le> d" "d \<le> pow2 400"
  shows "js_div (Fin 1) (Fin d) = Fin (rd (1 / d))"
    and "(1 / d) * (1 - unit_roundoff) \<le> rd (1 / d)"
    and "rd (1 / d) \<le> (1 / d) * (1 + unit_roundoff)"
    and "pow2 (- 401) \<le> rd (1 / d)"
    and "rd (1 / d) \<le> pow2 401"
    and "0 < d"
    and "normal_range (1 / d)"
proof -
  show pos: "0 < d" using assms(1) pow2_pos [of "- 400"] by linarith
  have lo: "pow2 (- 400) \<le> 1 / d"
    using assms(2) pos by (simp add: pow2_neg [of 400] frac_le)
  have hi: "1 / d \<le> pow2 400"
  proof -
    have "1 / d \<le> 1 / pow2 (- 400)" using assms(1) by (simp add: frac_le)
    then show ?thesis by (simp add: pow2_neg [of 400])
  qed
  have "pow2 (- 1022) \<le> pow2 (- 400)" by (rule pow2_mono) simp
  moreover have "pow2 400 < pow2 1023" by (rule pow2_less) simp
  ultimately show nr: "normal_range (1 / d)" using lo hi by (simp add: normal_range_def)
  show "js_div (Fin 1) (Fin d) = Fin (rd (1 / d))" using js_div_pos [of 1 d] pos nr by simp
  show l: "(1 / d) * (1 - unit_roundoff) \<le> rd (1 / d)" using rd_normal(3) [OF nr] .
  show h: "rd (1 / d) \<le> (1 / d) * (1 + unit_roundoff)" using rd_normal(4) [OF nr] .
  have "pow2 (- 401 + 1) = 2 * pow2 (- 401)" by (rule pow2_Suc)
  then have "pow2 (- 401) = pow2 (- 400) * (1 / 2)" by simp
  also have "\<dots> \<le> (1 / d) * (1 - unit_roundoff)"
    using lo roundoff_facts(6) pos by (intro mult_mono) simp_all
  finally show "pow2 (- 401) \<le> rd (1 / d)" using l by linarith
  have p400: "0 \<le> pow2 400" using pow2_pos [of 400] by linarith
  have u0: "0 \<le> 1 + unit_roundoff" using roundoff_facts(3) by linarith
  have "(1 / d) * (1 + unit_roundoff) \<le> pow2 400 * 2"
    by (rule mult_mono [OF hi roundoff_facts(7) p400 u0])
  also have "\<dots> = pow2 (400 + 1)" using pow2_Suc [of 400] by simp
  finally show "rd (1 / d) \<le> pow2 401" using h by simp
qed


lemma sum_list_divide_const:
  fixes f :: "'a \<Rightarrow> real"
  shows "(\<Sum>x\<leftarrow>xs. f x / c) = (\<Sum>x\<leftarrow>xs. f x) / c"
  by (induction xs) (simp_all add: add_divide_distrib)

lemma sum_list_bound:
  fixes f :: "'a \<Rightarrow> real"
  assumes "\<forall>x\<in>set xs. f x \<le> b"
  shows "(\<Sum>x\<leftarrow>xs. f x) \<le> real (length xs) * b"
  using assms by (induction xs) (auto simp: algebra_simps)

lemma member_le_sum_list_real:
  fixes f :: "'a \<Rightarrow> real"
  assumes "\<forall>x\<in>set xs. 0 \<le> f x" "y \<in> set xs"
  shows "f y \<le> (\<Sum>x\<leftarrow>xs. f x)"
  using assms
proof (induction xs)
  case Nil
  then show ?case by simp
next
  case (Cons a xs)
  have "0 \<le> (\<Sum>x\<leftarrow>xs. f x)"
    using Cons.prems(1) by (intro sum_list_nonneg_real) auto
  then show ?case using Cons by auto
qed

lemma roundoff_numeric:
  "(1 + unit_roundoff) * (1 + unit_roundoff) / (1 - 1 / 2 ^ 32) \<le> 1 + 1 / 10 ^ 9"
  "1 - 1 / 10 ^ 9 \<le> (1 - unit_roundoff) * (1 - unit_roundoff) * (1 - 1 / 2 ^ 32)"
  by (simp_all add: unit_roundoff_def)

lemma normalize_analysis:
  assumes ne: "os \<noteq> []" and len: "length os \<le> 2 ^ 20"
    and range: "\<forall>d\<in>set os. pow2 (- 400) \<le> d \<and> d \<le> pow2 400"
  shows "normalizeDecimalOddsToProbs (map (\<lambda>d. Some (Fin d)) os) = map (\<lambda>d. Fin (prob_of os d)) os"
    and "\<forall>d\<in>set os. 0 < prob_of os d
           \<and> ((1 / d) / (\<Sum>x\<leftarrow>os. 1 / x)) * (1 - 1 / 10 ^ 9) \<le> prob_of os d
           \<and> prob_of os d \<le> ((1 / d) / (\<Sum>x\<leftarrow>os. 1 / x)) * (1 + 1 / 10 ^ 9)"
    and "\<forall>d\<in>set os. \<forall>e\<in>set os. d \<le> e \<longrightarrow> prob_of os e \<le> prob_of os d"
proof -
  let ?U = "1 + unit_roundoff" and ?L = "1 - unit_roundoff"
  let ?n = "length os"
  define as where "as = map (\<lambda>x. rd (1 / x)) os"
  define T where "T = (\<Sum>x\<leftarrow>os. 1 / x)"
  define S where "S = sum_list as"
  define s where "s = fsum 0 as"
  have U1: "1 \<le> ?U" and L1: "?L \<le> 1" and L0: "0 < ?L" using roundoff_facts by auto
  have U0: "0 < ?U" using U1 by linarith
  have n21: "?n \<le> 2 ^ 21" using len by simp
  have n21': "Suc ?n \<le> 2 ^ 21" using len by simp
  have el: "js_div (Fin 1) (Fin d) = Fin (rd (1 / d))" "(1 / d) * ?L \<le> rd (1 / d)"
    "rd (1 / d) \<le> (1 / d) * ?U" "pow2 (- 401) \<le> rd (1 / d)" "rd (1 / d) \<le> pow2 401"
    "0 < d" "normal_range (1 / d)" if "d \<in> set os" for d
    using implied_range [of d] range that by blast+
  have implied: "map (\<lambda>d. js_div (Fin 1) (ToNumber d)) (map (\<lambda>d. Some (Fin d)) os) = map Fin as"
    unfolding as_def using el(1) by (simp add: ToNumber_def)
  have len_as: "length as = ?n" by (simp add: as_def)
  have S_eq: "S = (\<Sum>x\<leftarrow>os. rd (1 / x))" by (simp add: S_def as_def comp_def)
  have S_lo: "T * ?L \<le> S"
  proof -
    have "(\<Sum>x\<leftarrow>os. (1 / x) * ?L) \<le> (\<Sum>x\<leftarrow>os. rd (1 / x))"
      using el(2) by (intro sum_list_mono) blast
    then show ?thesis by (simp only: T_def S_eq sum_list_mult_const)
  qed
  have S_hi: "S \<le> T * ?U"
  proof -
    have "(\<Sum>x\<leftarrow>os. rd (1 / x)) \<le> (\<Sum>x\<leftarrow>os. (1 / x) * ?U)"
      using el(3) by (intro sum_list_mono) blast
    then show ?thesis by (simp only: T_def S_eq sum_list_mult_const)
  qed
  obtain d0 where d0: "d0 \<in> set os" using ne by (cases os) auto
  have inv_nonneg: "\<forall>x\<in>set os. 0 \<le> 1 / x" using el(6) by (simp add: less_imp_le)
  have T_ge: "1 / d \<le> T" if "d \<in> set os" for d
    unfolding T_def using member_le_sum_list_real [of os "\<lambda>x. 1 / x" d] inv_nonneg that by simp
  have "0 < 1 / d0" using el(6) [OF d0] by simp
  then have T_pos: "0 < T" using T_ge [OF d0] by linarith
  have a_nonneg: "\<forall>x\<in>set os. 0 \<le> rd (1 / x)"
  proof
    fix x assume "x \<in> set os"
    then show "0 \<le> rd (1 / x)" using el(4) [of x] pow2_pos [of "- 401"] by linarith
  qed
  have a_le_S: "rd (1 / d) \<le> S" if "d \<in> set os" for d
    unfolding S_eq using member_le_sum_list_real [of os "\<lambda>x. rd (1 / x)" d] a_nonneg that by simp
  have S_pos: "0 < S" using a_le_S [OF d0] el(4) [OF d0] pow2_pos [of "- 401"] by linarith
  have S_big: "S \<le> pow2 421"
  proof -
    have "(\<Sum>x\<leftarrow>os. rd (1 / x)) \<le> real ?n * pow2 401"
      using el(5) by (intro sum_list_bound) blast
    also have "\<dots> \<le> 2 ^ 20 * pow2 401"
    proof -
      have "real ?n \<le> 2 ^ 20" using len by (metis of_nat_le_iff of_nat_numeral of_nat_power)
      then show ?thesis by (simp add: mult_right_mono less_imp_le)
    qed
    also have "\<dots> = pow2 (20 + 401)" unfolding pow2_add by (simp add: pow2_def)
    finally show ?thesis by (simp add: S_eq)
  qed
  have Un2: "?U ^ ?n \<le> 2" using high_power_two [OF n21] .
  have Un0: "0 < ?U ^ ?n" using U0 by simp
  have Ln0: "0 < ?L ^ ?n" using L0 by simp
  have SU: "S * ?U ^ ?n \<le> pow2 422"
  proof -
    have "S * ?U ^ ?n \<le> pow2 421 * 2"
      using S_big Un2 S_pos Un0 by (intro mult_mono) (simp_all add: less_imp_le)
    also have "\<dots> = pow2 (421 + 1)" using pow2_Suc [of 421] by simp
    finally show ?thesis by simp
  qed
  have as_lo: "\<forall>a\<in>set as. pow2 (- 1022) \<le> a"
  proof
    fix a assume "a \<in> set as"
    then obtain d where "d \<in> set os" "a = rd (1 / d)" by (auto simp: as_def)
    moreover have "pow2 (- 1022) \<le> pow2 (- 401)" by (rule pow2_mono) simp
    ultimately show "pow2 (- 1022) \<le> a" using el(4) [of d] by linarith
  qed
  have "pow2 422 < pow2 1023" by (rule pow2_less) simp
  then have pre: "(0 + sum_list as) * ?U ^ length as < pow2 1023"
    using SU by (simp add: S_def len_as)
  from fold_sum [OF _ as_lo pre]
  have fs: "foldl js_add (Fin 0) (map Fin as) = Fin s" "S * ?L ^ ?n \<le> s" "s \<le> S * ?U ^ ?n"
    by (simp_all add: s_def S_def len_as)
  have s_pos: "0 < s"
  proof -
    have "0 < S * ?L ^ ?n" using S_pos Ln0 by simp
    then show ?thesis using fs(2) by linarith
  qed
  have s_lo: "T * ?L ^ Suc ?n \<le> s"
  proof -
    have "(T * ?L) * ?L ^ ?n \<le> S * ?L ^ ?n"
      using S_lo Ln0 by (intro mult_right_mono) (simp_all add: less_imp_le)
    then show ?thesis using fs(2) by (simp add: mult.assoc)
  qed
  have s_hi: "s \<le> T * ?U ^ Suc ?n"
  proof -
    have "S * ?U ^ ?n \<le> (T * ?U) * ?U ^ ?n"
      using S_hi Un0 by (intro mult_right_mono) (simp_all add: less_imp_le)
    then show ?thesis using fs(3) by (simp add: mult.assoc)
  qed
  have LS0: "0 < ?L ^ Suc ?n" using L0 by simp
  have US0: "0 < ?U ^ Suc ?n" using U0 by simp
  have q: "normal_range (rd (1 / d) / s)" if "d \<in> set os" for d
  proof -
    have a0: "0 \<le> rd (1 / d)" using a_nonneg that by blast
    have s_le: "s \<le> pow2 422" using fs(3) SU by linarith
    have "pow2 (- 401) / pow2 422 \<le> rd (1 / d) / s"
      by (rule frac_le [OF a0 el(4) [OF that] s_pos s_le])
    moreover have "pow2 (- 401) / pow2 422 = pow2 (- 401 + - 422)"
      unfolding pow2_add by (simp add: pow2_neg [of 422])
    moreover have "pow2 (- 1022) \<le> pow2 (- 401 + - 422)" by (rule pow2_mono) simp
    ultimately have lo: "pow2 (- 1022) \<le> rd (1 / d) / s" by linarith
    have S0: "0 \<le> S" using S_pos by linarith
    have SL0: "0 < S * ?L ^ ?n" using S_pos Ln0 by simp
    have "rd (1 / d) / s \<le> S / (S * ?L ^ ?n)"
      by (rule frac_le [OF S0 a_le_S [OF that] SL0 fs(2)])
    also have "\<dots> = 1 / ?L ^ ?n" using S_pos by simp
    also have "\<dots> \<le> 1 / (1 - 1 / 2 ^ 32)"
      using low_power [OF n21] by (intro divide_left_mono) (simp_all add: Ln0)
    also have "\<dots> \<le> (2 :: real)" by simp
    finally have "rd (1 / d) / s \<le> 2" .
    moreover have "(2 :: real) < pow2 1023" using pow2_less [of 1 1023] by (simp add: pow2_def)
    ultimately show ?thesis using lo by (simp add: normal_range_def)
  qed
  have a_pos: "0 < rd (1 / d)" if "d \<in> set os" for d
    using el(4) [OF that] pow2_pos [of "- 401"] by linarith
  have dv: "js_div (Fin (rd (1 / d))) (Fin s) = Fin (prob_of os d)" if "d \<in> set os" for d
    using js_div_pos [OF a_pos [OF that] s_pos q [OF that]]
    by (simp add: prob_of_def s_def as_def)
  show "normalizeDecimalOddsToProbs (map (\<lambda>d. Some (Fin d)) os) = map (\<lambda>d. Fin (prob_of os d)) os"
    unfolding normalizeDecimalOddsToProbs_def Let_def implied fs(1)
    using dv by (simp add: as_def)
  have P: "prob_of os d = rd (rd (1 / d) / s)" for d by (simp add: prob_of_def s_def as_def)
  show "\<forall>d\<in>set os. 0 < prob_of os d
           \<and> ((1 / d) / (\<Sum>x\<leftarrow>os. 1 / x)) * (1 - 1 / 10 ^ 9) \<le> prob_of os d
           \<and> prob_of os d \<le> ((1 / d) / (\<Sum>x\<leftarrow>os. 1 / x)) * (1 + 1 / 10 ^ 9)"
  proof
    fix d assume d: "d \<in> set os"
    define t where "t = (1 / d) / T"
    have x0: "0 < 1 / d" using el(6) [OF d] by simp
    have t0: "0 < t" unfolding t_def using x0 T_pos by simp
    have t0': "0 \<le> t" using t0 by linarith
    have c0: "0 < (1 - 1 / 2 ^ 32 :: real)" by simp
    note r = rd_normal [OF q [OF d]]
    have p0: "0 < prob_of os d" using r(2) by (simp add: P)
    have xU0: "0 \<le> (1 / d) * ?U" using x0 U0 by (simp add: less_imp_le)
    have TL0: "0 < T * ?L ^ Suc ?n" using T_pos LS0 by (rule mult_pos_pos)
    have "rd (1 / d) / s \<le> ((1 / d) * ?U) / (T * ?L ^ Suc ?n)"
      by (rule frac_le [OF xU0 el(3) [OF d] TL0 s_lo])
    then have "(rd (1 / d) / s) * ?U \<le> (((1 / d) * ?U) / (T * ?L ^ Suc ?n)) * ?U"
      using U0 by (intro mult_right_mono) linarith+
    also have "\<dots> = t * (?U * ?U / ?L ^ Suc ?n)" by (simp add: t_def)
    also have "\<dots> \<le> t * (?U * ?U / (1 - 1 / 2 ^ 32))"
    proof -
      have UU0: "0 \<le> ?U * ?U" using U0 by simp
      have Lc0: "0 < ?L ^ Suc ?n * (1 - 1 / 2 ^ 32)" using LS0 c0 by (rule mult_pos_pos)
      have "?U * ?U / ?L ^ Suc ?n \<le> ?U * ?U / (1 - 1 / 2 ^ 32)"
        by (rule divide_left_mono [OF low_power [OF n21'] UU0 Lc0])
      then show ?thesis using t0' by (rule mult_left_mono)
    qed
    also have "\<dots> \<le> t * (1 + 1 / 10 ^ 9)"
      by (rule mult_left_mono [OF roundoff_numeric(1) t0'])
    finally have "(rd (1 / d) / s) * ?U \<le> t * (1 + 1 / 10 ^ 9)" .
    then have up: "prob_of os d \<le> t * (1 + 1 / 10 ^ 9)" using r(4) unfolding P by linarith
    have Uinv: "1 - 1 / 2 ^ 32 \<le> 1 / ?U ^ Suc ?n"
    proof -
      have "?U ^ Suc ?n \<le> 1 / ?L ^ Suc ?n" by (rule high_power [OF n21'])
      also have "\<dots> \<le> 1 / (1 - 1 / 2 ^ 32)"
        using low_power [OF n21'] by (intro divide_left_mono) (simp_all add: LS0)
      finally have "?U ^ Suc ?n \<le> 1 / (1 - 1 / 2 ^ 32)" .
      then have "?U ^ Suc ?n * (1 - 1 / 2 ^ 32) \<le> 1" using c0 by (simp add: pos_le_divide_eq)
      then show ?thesis using US0 by (simp add: pos_le_divide_eq mult.commute)
    qed
    have "t * (1 - 1 / 10 ^ 9) \<le> t * (?L * ?L * (1 - 1 / 2 ^ 32))"
      by (rule mult_left_mono [OF roundoff_numeric(2) t0'])
    also have "\<dots> \<le> t * (?L * ?L * (1 / ?U ^ Suc ?n))"
    proof -
      have LL0: "0 \<le> ?L * ?L" using L0 by simp
      have "?L * ?L * (1 - 1 / 2 ^ 32) \<le> ?L * ?L * (1 / ?U ^ Suc ?n)"
        by (rule mult_left_mono [OF Uinv LL0])
      then show ?thesis using t0' by (rule mult_left_mono)
    qed
    also have "\<dots> = (((1 / d) * ?L) / (T * ?U ^ Suc ?n)) * ?L" by (simp add: t_def)
    also have "\<dots> \<le> (rd (1 / d) / s) * ?L"
    proof -
      have a0: "0 \<le> rd (1 / d)" using a_pos [OF d] by linarith
      have "((1 / d) * ?L) / (T * ?U ^ Suc ?n) \<le> rd (1 / d) / s"
        by (rule frac_le [OF a0 el(2) [OF d] s_pos s_hi])
      then show ?thesis using L0 by (intro mult_right_mono) linarith+
    qed
    finally have "t * (1 - 1 / 10 ^ 9) \<le> (rd (1 / d) / s) * ?L" .
    then have lo: "t * (1 - 1 / 10 ^ 9) \<le> prob_of os d" using r(3) unfolding P by linarith
    show "0 < prob_of os d
           \<and> ((1 / d) / (\<Sum>x\<leftarrow>os. 1 / x)) * (1 - 1 / 10 ^ 9) \<le> prob_of os d
           \<and> prob_of os d \<le> ((1 / d) / (\<Sum>x\<leftarrow>os. 1 / x)) * (1 + 1 / 10 ^ 9)"
      using p0 lo up unfolding t_def T_def by blast
  qed
  show "\<forall>d\<in>set os. \<forall>e\<in>set os. d \<le> e \<longrightarrow> prob_of os e \<le> prob_of os d"
  proof (intro ballI impI)
    fix d e assume d: "d \<in> set os" and e: "e \<in> set os" and le: "d \<le> e"
    have "1 / e \<le> 1 / d" using le el(6) [OF d] by (simp add: frac_le)
    then have "rd (1 / e) \<le> rd (1 / d)" using rd_mono [OF el(7) [OF e] el(7) [OF d]] by simp
    then have "rd (1 / e) / s \<le> rd (1 / d) / s" using s_pos by (simp add: divide_right_mono)
    then show "prob_of os e \<le> prob_of os d"
      using rd_mono [OF q [OF e] q [OF d]] by (simp add: P)
  qed
qed


lemma normalize_sum:
  assumes ne: "os \<noteq> []" and len: "length os \<le> 2 ^ 20"
    and range: "\<forall>d\<in>set os. pow2 (- 400) \<le> d \<and> d \<le> pow2 400"
  shows "\<bar>(\<Sum>d\<leftarrow>os. prob_of os d) - 1\<bar> \<le> 1 / 10 ^ 9"
proof -
  define T where "T = (\<Sum>x\<leftarrow>os. 1 / x)"
  note an = normalize_analysis(2) [OF assms, folded T_def]
  obtain d0 where d0: "d0 \<in> set os" using ne by (cases os) auto
  have pos: "0 < d" if "d \<in> set os" for d
  proof -
    from range that have "pow2 (- 400) \<le> d" by blast
    then show ?thesis using pow2_pos [of "- 400"] by linarith
  qed
  have "\<forall>x\<in>set os. 0 \<le> 1 / x" using pos by (simp add: less_imp_le)
  then have "1 / d0 \<le> T"
    unfolding T_def using member_le_sum_list_real [of os "\<lambda>x. 1 / x" d0] d0 by simp
  moreover have "0 < 1 / d0" using pos [OF d0] by simp
  ultimately have T_pos: "0 < T" by linarith
  have "(\<Sum>d\<leftarrow>os. (1 / d) / T) = T / T"
    unfolding T_def by (rule sum_list_divide_const)
  then have one: "(\<Sum>d\<leftarrow>os. (1 / d) / T) = 1" using T_pos by simp
  have "(\<Sum>d\<leftarrow>os. prob_of os d) \<le> (\<Sum>d\<leftarrow>os. ((1 / d) / T) * (1 + 1 / 10 ^ 9))"
    using an by (intro sum_list_mono) blast
  also have "\<dots> = (\<Sum>d\<leftarrow>os. (1 / d) / T) * (1 + 1 / 10 ^ 9)"
    by (simp only: sum_list_mult_const)
  finally have up: "(\<Sum>d\<leftarrow>os. prob_of os d) \<le> 1 + 1 / 10 ^ 9" by (simp only: one mult_1)
  have "(\<Sum>d\<leftarrow>os. (1 / d) / T) * (1 - 1 / 10 ^ 9) = (\<Sum>d\<leftarrow>os. ((1 / d) / T) * (1 - 1 / 10 ^ 9))"
    by (simp only: sum_list_mult_const)
  also have "\<dots> \<le> (\<Sum>d\<leftarrow>os. prob_of os d)"
    using an by (intro sum_list_mono) blast
  finally have lo: "1 - 1 / 10 ^ 9 \<le> (\<Sum>d\<leftarrow>os. prob_of os d)" by (simp only: one mult_1)
  show ?thesis using lo up by linarith
qed

lemma round_double_eval:
  assumes "pow2 e \<le> x" "x < pow2 (e + 1)" "- 1022 \<le> e"
    and "round_half_even (x / pow2 (e - 52)) = k" "k \<noteq> 0"
  shows "round_double x
         = (if pow2 1024 \<le> of_int k * pow2 (e - 52) then PosInf else Fin (of_int k * pow2 (e - 52)))"
proof -
  have pos: "0 < x" using assms(1) pow2_pos [of e] by linarith
  have e: "\<lfloor>log 2 x\<rfloor> = e" using exponent_eq [OF assms(1,2)] .
  have q: "quantum x = e - 52" using assms(3) by (simp add: quantum_def e)
  have nz: "of_int k * pow2 (e - 52) \<noteq> 0" using assms(5) by simp
  show ?thesis
    using pos nz assms(4) by (simp add: round_double_def Let_def q)
qed

lemma round_double_one: "round_double 1 = Fin 1"
proof -
  have a: "pow2 0 \<le> (1 :: real)" by (simp add: pow2_def)
  have b: "(1 :: real) < pow2 (0 + 1)" by (simp add: pow2_def)
  have c: "round_half_even (1 / pow2 (0 - 52)) = 2 ^ 52"
    using rhe_of_int [of "2 ^ 52"] by (simp add: pow2_def)
  have d: "(2 :: int) ^ 52 \<noteq> 0" by simp
  have "round_double 1 = (if pow2 1024 \<le> of_int (2 ^ 52) * pow2 (0 - 52) then PosInf else Fin (of_int (2 ^ 52) * pow2 (0 - 52)))"
    by (rule round_double_eval [OF a b _ c d]) simp
  also have "of_int (2 ^ 52) * pow2 (0 - 52) = (1 :: real)" by (simp add: pow2_def)
  finally show ?thesis by (simp add: pow2_def)
qed


lemma round_double_huge: "round_double (2 ^ 1074) = PosInf"
proof -
  have a: "pow2 1074 \<le> (2 :: real) ^ 1074" by (simp add: pow2_def)
  have b: "(2 :: real) ^ 1074 < pow2 (1074 + 1)" by (simp add: pow2_def)
  have "(2 :: real) ^ 1074 / pow2 (1074 - 52) = 2 ^ 52"
    by (simp add: pow2_def flip: power_diff)
  then have c: "round_half_even (2 ^ 1074 / pow2 (1074 - 52)) = 2 ^ 52"
    using rhe_of_int [of "2 ^ 52"] by simp
  have d: "(2 :: int) ^ 52 \<noteq> 0" by simp
  have big: "pow2 1024 \<le> of_int (2 ^ 52) * pow2 (1074 - 52)"
  proof -
    have "of_int (2 ^ 52) * pow2 (1074 - 52) = pow2 52 * pow2 1022" by (simp add: pow2_def)
    also have "\<dots> = pow2 (52 + 1022)" by (simp only: pow2_add)
    finally show ?thesis using pow2_mono [of 1024 "52 + 1022"] by simp
  qed
  have "round_double (2 ^ 1074) = (if pow2 1024 \<le> of_int (2 ^ 52) * pow2 (1074 - 52) then PosInf
      else Fin (of_int (2 ^ 52) * pow2 (1074 - 52)))"
    by (rule round_double_eval [OF a b _ c d]) simp
  then show ?thesis using big by (simp only: if_True)
qed


lemma js_div_tiny: "js_div (Fin 1) (Fin (1 / 2 ^ 1074)) = PosInf"
proof -
  have "js_div (Fin 1) (Fin (1 / 2 ^ 1074)) = round_double (1 / (1 / 2 ^ 1074))"
    by (simp add: js_div_def is_nan_def is_inf_def is_zero_def Let_def)
  also have "1 / (1 / 2 ^ 1074) = (2 :: real) ^ 1074" by simp
  finally show ?thesis by (simp only: round_double_huge)
qed

lemma js_div_one: "js_div (Fin 1) (Fin 1) = Fin 1"
  by (simp add: js_div_def is_nan_def is_inf_def is_zero_def Let_def round_double_one)

lemma normalize_overflow:
  "normalizeDecimalOddsToProbs [Some (Fin (1 / 2 ^ 1074)), Some (Fin 1)] = [NaN, Fin 0]"
proof -
  have "normalizeDecimalOddsToProbs [Some (Fin (1 / 2 ^ 1074)), Some (Fin 1)]
        = (let implied = [js_div (Fin 1) (Fin (1 / 2 ^ 1074)), js_div (Fin 1) (Fin 1)];
               total = foldl js_add (Fin 0) implied
           in map (\<lambda>p. js_div p total) implied)"
    by (simp only: normalizeDecimalOddsToProbs_def ToNumber_def list.map option.case Let_def)
  also have "\<dots> = [NaN, Fin 0]"
    unfolding js_div_tiny js_div_one
    by (simp add: js_div_def js_add_def Let_def is_nan_def is_inf_def is_zero_def
        zero_of_def inf_of_def)
  finally show ?thesis .
qed


lemma rhe_between:
  assumes "of_int k - 1 / 2 < r" "r < of_int k + 1 / 2"
  shows "round_half_even r = k"
proof -
  have "\<lfloor>r\<rfloor> = k \<or> \<lfloor>r\<rfloor> = k - 1" using assms by linarith
  then show ?thesis
  proof
    assume "\<lfloor>r\<rfloor> = k"
    then show ?thesis using assms unfolding round_half_even_def Let_def by auto
  next
    assume f: "\<lfloor>r\<rfloor> = k - 1"
    have "r - of_int (k - 1) > 1 / 2" using assms by simp
    then show ?thesis using f unfolding round_half_even_def Let_def by auto
  qed
qed

lemma rd_eval:
  assumes "pow2 e \<le> x" "x < pow2 (e + 1)" "- 1022 \<le> e" "e < 1023"
    and "of_int k - 1 / 2 < x / pow2 (e - 52)" "x / pow2 (e - 52) < of_int k + 1 / 2"
  shows "rd x = of_int k * pow2 (e - 52)"
proof -
  have "pow2 (- 1022) \<le> pow2 e" using assms(3) by (rule pow2_mono)
  moreover have "pow2 (e + 1) \<le> pow2 1023" using assms(4) by (intro pow2_mono) simp
  ultimately have nr: "normal_range x" using assms(1,2) by (simp add: normal_range_def)
  have "pow2 (e - 52) * pow2 52 = pow2 e" using pow2_add [of "e - 52" 52] by simp
  then have "pow2 52 * pow2 (e - 52) \<le> x" using assms(1) by (simp add: mult.commute)
  then have "pow2 52 \<le> x / pow2 (e - 52)" by (simp add: pos_le_divide_eq)
  moreover have "(1 :: real) \<le> pow2 52" by (simp add: pow2_def)
  ultimately have "(1 :: real) < of_int k + 1 / 2" using assms(6) by linarith
  then have k: "k \<noteq> 0" by auto
  have c: "round_half_even (x / pow2 (e - 52)) = k" using assms(5,6) by (rule rhe_between)
  from round_double_eval [OF assms(1,2,3) c k] rd_normal(1) [OF nr]
  have "Fin (rd x) = (if pow2 1024 \<le> of_int k * pow2 (e - 52) then PosInf
                      else Fin (of_int k * pow2 (e - 52)))" by simp
  then show ?thesis by (simp split: if_splits)
qed

lemma reciprocal_collision:
  "rd (1 / (2 - 1 / 2 ^ 51)) = (2 ^ 52 + 1) / 2 ^ 53"
  "rd (1 / (2 - 1 / 2 ^ 52)) = (2 ^ 52 + 1) / 2 ^ 53"
proof -
  have "rd (1 / (2 - 1 / 2 ^ 51)) = of_int (2 ^ 52 + 1) * pow2 (- 1 - 52)"
    by (rule rd_eval) (simp_all add: pow2_def)
  then show "rd (1 / (2 - 1 / 2 ^ 51)) = (2 ^ 52 + 1) / 2 ^ 53" by (simp add: pow2_def)
  have "rd (1 / (2 - 1 / 2 ^ 52)) = of_int (2 ^ 52 + 1) * pow2 (- 1 - 52)"
    by (rule rd_eval) (simp_all add: pow2_def)
  then show "rd (1 / (2 - 1 / 2 ^ 52)) = (2 ^ 52 + 1) / 2 ^ 53" by (simp add: pow2_def)
qed

lemma normalize_collision:
  "\<exists>p. normalizeDecimalOddsToProbs [Some (Fin (2 - 1 / 2 ^ 51)), Some (Fin (2 - 1 / 2 ^ 52))]
        = [Fin p, Fin p]"
proof -
  let ?os = "[2 - 1 / 2 ^ 51, 2 - 1 / 2 ^ 52 :: real]"
  have "\<forall>d\<in>set ?os. pow2 (- 400) \<le> d \<and> d \<le> pow2 400" by (simp add: pow2_def)
  from normalize_analysis(1) [OF _ _ this]
  have "normalizeDecimalOddsToProbs (map (\<lambda>d. Some (Fin d)) ?os) = map (\<lambda>d. Fin (prob_of ?os d)) ?os"
    by simp
  moreover have "prob_of ?os (2 - 1 / 2 ^ 52) = prob_of ?os (2 - 1 / 2 ^ 51)"
    unfolding prob_of_def reciprocal_collision ..
  ultimately show ?thesis by simp
qed

section \<open>Properties of the normalizer\<close>

text \<open>
  C1, as stated, fails on doubles.  The reciprocal of the smallest positive double is
  above the largest double: it is \<^verbatim>\<open>Infinity\<close>, so is the sum, and the results for the odds
  \<open>2\<^sup>-\<^sup>1\<^sup>0\<^sup>7\<^sup>4\<close> and 1 are NaN and 0.  And the two largest doubles below 2 have the same
  reciprocal after rounding, hence the same probability, although one is strictly lower
  than the other.
\<close>

theorem normalize_double_counterexample:
  "normalizeDecimalOddsToProbs [Some (Fin (1 / 2 ^ 1074)), Some (Fin 1)] = [NaN, Fin 0]
   \<and> (\<exists>p. normalizeDecimalOddsToProbs
             [Some (Fin (2 - 1 / 2 ^ 51)), Some (Fin (2 - 1 / 2 ^ 52))] = [Fin p, Fin p])"
  using normalize_overflow normalize_collision by (rule conjI)

text \<open>
  C1, amended.  For every non-empty array of at most \<open>2\<^sup>2\<^sup>0\<close> odds between \<open>2\<^sup>-\<^sup>4\<^sup>0\<^sup>0\<close> and \<open>2\<^sup>4\<^sup>0\<^sup>0\<close>,
  the result is an array of positive finite numbers of the same length whose i-th entry
  differs from \<open>(1/o\<^sub>i) / \<Sum>\<^sub>j (1/o\<^sub>j)\<close> by at most that value times \<open>10\<^sup>-\<^sup>9\<close>; the entries sum
  to 1 within \<open>10\<^sup>-\<^sup>9\<close>; and an odds value that is lower than or equal to another never gets
  the lower probability of the two.
\<close>

theorem normalize_in_range:
  fixes os :: "real list"
  assumes "os \<noteq> []" and "length os \<le> 2 ^ 20"
    and "\<forall>d\<in>set os. 1 / 2 ^ 400 \<le> d \<and> d \<le> 2 ^ 400"
  shows "\<exists>ps. normalizeDecimalOddsToProbs (map (\<lambda>d. Some (Fin d)) os) = map Fin ps
            \<and> length ps = length os
            \<and> (\<forall>i<length os. 0 < ps ! i
                  \<and> \<bar>ps ! i - (1 / os ! i) / (\<Sum>x\<leftarrow>os. 1 / x)\<bar>
                      \<le> ((1 / os ! i) / (\<Sum>x\<leftarrow>os. 1 / x)) / 10 ^ 9)
            \<and> \<bar>sum_list ps - 1\<bar> \<le> 1 / 10 ^ 9
            \<and> (\<forall>i<length os. \<forall>j<length os. os ! i \<le> os ! j \<longrightarrow> ps ! j \<le> ps ! i)"
proof -
  have r: "\<forall>d\<in>set os. pow2 (- 400) \<le> d \<and> d \<le> pow2 400"
    using assms(3) by (simp add: pow2_def)
  note an = normalize_analysis [OF assms(1,2) r]
  define ps where "ps = map (prob_of os) os"
  have a: "normalizeDecimalOddsToProbs (map (\<lambda>d. Some (Fin d)) os) = map Fin ps"
    using an(1) by (simp add: ps_def comp_def)
  have b: "length ps = length os" by (simp add: ps_def)
  have c: "0 < ps ! i
        \<and> \<bar>ps ! i - (1 / os ! i) / (\<Sum>x\<leftarrow>os. 1 / x)\<bar>
            \<le> ((1 / os ! i) / (\<Sum>x\<leftarrow>os. 1 / x)) / 10 ^ 9" if "i < length os" for i
  proof -
    define t where "t = (1 / os ! i) / (\<Sum>x\<leftarrow>os. 1 / x)"
    have m: "os ! i \<in> set os" using that by simp
    have p: "ps ! i = prob_of os (os ! i)" using that by (simp add: ps_def)
    from an(2) m have f: "0 < prob_of os (os ! i)" "t * (1 - 1 / 10 ^ 9) \<le> prob_of os (os ! i)"
      "prob_of os (os ! i) \<le> t * (1 + 1 / 10 ^ 9)" unfolding t_def by blast+
    define k where "k = t / 10 ^ 9"
    have e1: "t * (1 - 1 / 10 ^ 9) = t - k" by (simp add: k_def right_diff_distrib)
    have e2: "t * (1 + 1 / 10 ^ 9) = t + k" by (simp add: k_def distrib_left)
    have "t - k \<le> prob_of os (os ! i)" using f(2) unfolding e1 .
    moreover have "prob_of os (os ! i) \<le> t + k" using f(3) unfolding e2 .
    ultimately have "\<bar>prob_of os (os ! i) - t\<bar> \<le> k" by linarith
    then show ?thesis using f(1) unfolding p t_def k_def by blast
  qed
  have d: "\<bar>sum_list ps - 1\<bar> \<le> 1 / 10 ^ 9"
    using normalize_sum [OF assms(1,2) r] by (simp add: ps_def)
  have e: "ps ! j \<le> ps ! i" if "i < length os" "j < length os" "os ! i \<le> os ! j" for i j
    using an(3) that by (simp add: ps_def)
  show ?thesis
    using a b c d e by (intro exI [of _ ps]) blast
qed

theorem normalize_in_range_witness:
  "\<exists>ps. normalizeDecimalOddsToProbs [Some (Fin 2), Some (Fin 4)] = map Fin ps
        \<and> length ps = 2 \<and> 0 < ps ! 1 \<and> ps ! 1 \<le> ps ! 0 \<and> \<bar>sum_list ps - 1\<bar> \<le> 1 / 10 ^ 9"
proof -
  from normalize_in_range [of "[2, 4]"] obtain ps where
    ps: "normalizeDecimalOddsToProbs [Some (Fin 2), Some (Fin 4)] = map Fin ps"
      "length ps = 2" "\<forall>i<2. 0 < ps ! i" "\<bar>sum_list ps - 1\<bar> \<le> 1 / 10 ^ 9"
      "\<forall>i<2. \<forall>j<2. [2, 4 :: real] ! i \<le> [2, 4] ! j \<longrightarrow> ps ! j \<le> ps ! i"
    by auto
  have "0 < ps ! 1" using ps(3) by simp
  moreover have "ps ! 1 \<le> ps ! 0" using ps(5) by (auto simp: nth_Cons')
  ultimately show ?thesis using ps(1,2,4) by blast
qed

section \<open>Properties of the extractor\<close>










subsection \<open>The sample events\<close>

lemma extract_market_sample:
  "extract_market (event_with [bk_prices [a, b]]) =
     Inr (Some \<lparr>x_event = event_with [bk_prices [a, b]], x_bk = Some (bk_prices [a, b]),
           x_names = [Some ''P'', Some ''P''], x_odds = [Some (Fin a), Some (Fin b)],
           x_probs = normalizeDecimalOddsToProbs [Some (Fin a), Some (Fin b)]\<rparr>)"
  "extract_market (event_with [bk_prices [a, b, c]]) =
     Inr (Some \<lparr>x_event = event_with [bk_prices [a, b, c]], x_bk = Some (bk_prices [a, b, c]),
           x_names = [Some ''P'', Some ''P'', Some ''P''],
           x_odds = [Some (Fin a), Some (Fin b), Some (Fin c)],
           x_probs = normalizeDecimalOddsToProbs [Some (Fin a), Some (Fin b), Some (Fin c)]\<rparr>)"
  by (simp_all add: extract_market_def find_bk_def find_h2h_def event_with_def bk_prices_def
      h2h_market_def offers_h2h_def is_h2h_def or_nil_def Let_def)

lemma event_with_sel:
  "e_id (event_with bs) = ''ev1''"
  "e_commence_time (event_with bs) = ''2026-01-01T10:00:00Z''"
  by (simp_all add: event_with_def)

lemma bk_prices_label: "bk_title_or_key (Some (bk_prices ps)) = Some ''Delta''"
  by (simp add: bk_title_or_key_def bk_prices_def js_or_def)

lemma esc_samples:
  "esc numstr (JStr ''NaN'') = ''NaN''"
  "esc numstr (JStr []) = []"
  "esc numstr (JStr ''P'') = ''P''"
  "esc numstr (JStr ''ev1'') = ''ev1''"
  "esc numstr (JStr ''eu'') = ''eu''"
  "esc numstr (JStr ''Delta'') = ''Delta''"
  "esc numstr (JStr ''tennis_atp'') = ''tennis_atp''"
  "esc numstr (JStr ''2026-01-01T10:00:00Z'') = ''2026-01-01T10:00:00Z''"
  by (simp_all add: esc_def needs_quoting_def)




section \<open>Failure policies of the entry points\<close>

lemma scan_rows_member:
  assumes "s \<in> set sports" and "r \<in> set REGIONS"
  shows "\<lparr>r_ts = ts, r_key = s_key s, r_title = s_title s, r_region = r,
           r_count = countEvents net (s_key s) r\<rparr> \<in> set (scan_rows net ts sports REGIONS)"
  using assms by (auto simp: scan_rows_def)



lemma all_loop_abort:
  assumes "key \<in> set keys" and "net key REGION = Rejected msg"
  shows "\<exists>e. all_loop numstr net REGION all keys = Inl e"
  using assms
proof (induction keys arbitrary: all)
  case Nil
  then show ?case by simp
next
  case (Cons k ks)
  show ?case
  proof (cases "all_fetchOddsForKey numstr net REGION k")
    case (Inl e)
    then show ?thesis by simp
  next
    case (Inr rows)
    then have "k \<noteq> key" using Cons.prems(2) by (auto simp: all_fetchOddsForKey_def)
    then have "key \<in> set ks" using Cons.prems(1) by simp
    then show ?thesis using Cons.IH Cons.prems(2) Inr by simp
  qed
qed

text \<open>
  The history scan is lenient on a rejected fetch: the count of the pair is \<open>-1\<close>, and the
  scan completes with one row for every pair.
\<close>

lemma scan_transport_failure:
  assumes "net (s_key s) r = Rejected msg" "s \<in> set sports" "r \<in> set REGIONS"
  shows "countEvents net (s_key s) r = - 1"
    and "\<lparr>r_ts = ts, r_key = s_key s, r_title = s_title s, r_region = r, r_count = - 1\<rparr>
           \<in> set (scan_rows net ts sports REGIONS)"
proof -
  show c: "countEvents net (s_key s) r = - 1" using assms(1) by (simp add: countEvents_def)
  show "\<lparr>r_ts = ts, r_key = s_key s, r_title = s_title s, r_region = r, r_count = - 1\<rparr>
           \<in> set (scan_rows net ts sports REGIONS)"
    using scan_rows_member [OF assms(2,3), of ts net] c by simp
qed



text \<open>
  C9.  In the bulk snapshot a transport failure is not handled: \<^verbatim>\<open>fetchOddsForKey\<close> of
  \<^verbatim>\<open>odds_all.js\<close> awaits \<^verbatim>\<open>fetch\<close> outside any \<^verbatim>\<open>try\<close>, so the rejection leaves the loop over the
  keys and reaches the \<^verbatim>\<open>catch\<close> of the main function.  With a network on which the request
  for \<^verbatim>\<open>tennis_atp\<close> is rejected and every other request succeeds, the fetch of that key is
  an error and not the empty list, the loop does not go on with the remaining key, and the
  run exits with status 1 without a snapshot, where the same run with a response that is
  not ok completes.  The history scan on the same network records the count \<open>-1\<close> and
  completes.
\<close>

theorem bulk_transport_failure_exits:
  "net_atp_down ''tennis_atp'' ''eu'' = Rejected ''fetch failed''
   \<and> all_fetchOddsForKey (\<lambda>x. []) net_atp_down ''eu'' ''tennis_atp''
       = Inl (TypeError ''fetch failed'')
   \<and> all_loop (\<lambda>x. []) net_atp_down ''eu'' [] [''tennis_wta''] = Inr []
   \<and> all_loop (\<lambda>x. []) net_atp_down ''eu'' [] [''tennis_atp'', ''tennis_wta'']
       = Inl (TypeError ''fetch failed'')
   \<and> all_main (\<lambda>x. []) net_atp_down ''eu'' sample_time (Inr [''tennis_atp'', ''tennis_wta''])
       = Exit1 (TypeError ''fetch failed'')
   \<and> (\<exists>out. all_main (\<lambda>x. []) (net_status False ''503 Service Unavailable'') ''eu''
               sample_time (Inr [''tennis_atp'', ''tennis_wta'']) = Completed out)
   \<and> countEvents net_atp_down ''tennis_atp'' ''eu'' = - 1
   \<and> scan_main net_atp_down [''eu''] sample_time (Inr [atp]) None
       = Completed (Some (header @ line (atp_row (- 1))))"
  by (simp add: net_atp_down_def net_status_def all_fetchOddsForKey_def all_main_def
      countEvents_def scan_main_def appendHistory_def scan_rows_def atp_def atp_row_def
      Let_def)

section \<open>Rows of markets with more than two outcomes\<close>







lemma normalize_zero:
  "normalizeDecimalOddsToProbs [Some (Fin 0), Some (Fin 0)] = [NaN, NaN]"
  by (simp add: normalizeDecimalOddsToProbs_def ToNumber_def js_div_def js_add_def Let_def
      is_nan_def is_inf_def is_zero_def zero_of_def inf_of_def)




section \<open>Non-finite probabilities in the persisted rows\<close>

lemma Object_keys_plain:
  "list_all (\<lambda>k. \<not> is_array_index k) (map fst r) \<Longrightarrow> Object_keys r = map fst r"
proof -
  assume a: "list_all (\<lambda>k. \<not> is_array_index k) (map fst r)"
  then have "filter is_array_index (map fst r) = []"
    by (auto simp: list_all_iff filter_empty_conv)
  moreover have "filter (\<lambda>k. \<not> is_array_index k) (map fst r) = map fst r"
    using a by (auto simp: list_all_iff filter_id_conv)
  ultimately show ?thesis by (simp add: Object_keys_def)
qed

lemma Object_keys_rows:
  "Object_keys (cli_row numstr region e) =
     [''id'', ''start'', ''player1'', ''player2'', ''odds1'', ''odds2'', ''prob1'', ''prob2'',
      ''bookmaker'', ''region'']"
  "Object_keys (all_row numstr region sportKey x) =
     [''event_id'', ''start'', ''player1'', ''player2'', ''odds1'', ''odds2'', ''prob1'',
      ''prob2'', ''bookmaker'', ''sport_key'', ''region'']"
proof -
  have "Object_keys (cli_row numstr region e) = map fst (cli_row numstr region e)"
    by (rule Object_keys_plain) (simp add: cli_row_def is_array_index_def is_digit_def)
  then show "Object_keys (cli_row numstr region e) =
     [''id'', ''start'', ''player1'', ''player2'', ''odds1'', ''odds2'', ''prob1'', ''prob2'',
      ''bookmaker'', ''region'']" by (simp add: cli_row_def)
  have "Object_keys (all_row numstr region sportKey x)
      = map fst (all_row numstr region sportKey x)"
    by (rule Object_keys_plain) (simp add: all_row_def is_array_index_def is_digit_def)
  then show "Object_keys (all_row numstr region sportKey x) =
     [''event_id'', ''start'', ''player1'', ''player2'', ''odds1'', ''odds2'', ''prob1'',
      ''prob2'', ''bookmaker'', ''sport_key'', ''region'']" by (simp add: all_row_def)
qed

text \<open>
  In \<^verbatim>\<open>odds_all.js\<close> a probability that is not finite is persisted as the empty string.
\<close>

lemma all_row_blank:
  assumes "js_index (x_probs x) 0 = Some p" and "\<not> isFinite p"
  shows "get_prop (all_row numstr REGION sportKey x) ''prob1'' = JStr []"
  using assms by (simp add: all_row_def get_prop_def finite_fixed4_def)

text \<open>
  C4.  The single-competition fetch does not do the same.  For an event whose two prices
  are 0 the normalized probabilities are NaN; \<^verbatim>\<open>odds.js\<close> with \<^verbatim>\<open>--csv\<close> writes the text
  \<^verbatim>\<open>NaN\<close> into both probability columns, where \<^verbatim>\<open>odds_all.js\<close> leaves them empty.
\<close>

theorem cli_csv_writes_NaN:
  "(\<exists>out. cli_main_fetch numstr (net_events [event_with [bk_prices [0, 0]]]) None sample_time
             (Some ''tennis_atp'') csv_flags = Completed out
        \<and> map c_probs_normalized (cj_events (json_file out)) = [[NaN, NaN]]
        \<and> csv_file out =
            Some (''id,start,player1,player2,odds1,odds2,prob1,prob2,bookmaker,region''
                  @ [NEWLINE] @ ''ev1,2026-01-01T10:00:00Z,P,P,''
                  @ esc numstr (JNum (Fin 0)) @ '','' @ esc numstr (JNum (Fin 0))
                  @ '',NaN,NaN,Delta,eu''))
   \<and> (\<exists>out. all_main numstr (net_events [event_with [bk_prices [0, 0]]]) ''eu'' sample_time
             (Inr [''tennis_atp'']) = Completed out
        \<and> latest_csv out =
            ''event_id,start,player1,player2,odds1,odds2,prob1,prob2,bookmaker,sport_key,region''
            @ [NEWLINE] @ ''ev1,2026-01-01T10:00:00Z,P,P,''
            @ esc numstr (JNum (Fin 0)) @ '','' @ esc numstr (JNum (Fin 0))
            @ '',,,Delta,tennis_atp,eu'')"
proof -
  have cli: "\<exists>out. cli_main_fetch numstr (net_events [event_with [bk_prices [0, 0]]]) None
             sample_time (Some ''tennis_atp'') csv_flags = Completed out
        \<and> map c_probs_normalized (cj_events (json_file out)) = [[NaN, NaN]]
        \<and> csv_file out =
            Some (''id,start,player1,player2,odds1,odds2,prob1,prob2,bookmaker,region''
                  @ [NEWLINE] @ ''ev1,2026-01-01T10:00:00Z,P,P,''
                  @ esc numstr (JNum (Fin 0)) @ '','' @ esc numstr (JNum (Fin 0))
                  @ '',NaN,NaN,Delta,eu'')"
    by (simp add: cli_main_fetch_def cli_fetchOddsForKey_def net_events_def csv_flags_def
        regionToUse_def js_or_def filterByNames_def cli_event_of_def
        extract_market_sample normalize_zero toCsv_def Object_keys_rows
        get_prop_def js_index_def js_at_def fixed4_or_blank_def num_or_blank_def or_empty_def
        event_with_sel bk_prices_label esc_samples Let_def)
      (simp add: cli_row_def js_index_def js_at_def fixed4_or_blank_def num_or_blank_def
        or_empty_def esc_samples)
  have bulk: "\<exists>out. all_main numstr (net_events [event_with [bk_prices [0, 0]]]) ''eu''
             sample_time (Inr [''tennis_atp'']) = Completed out
        \<and> latest_csv out =
            ''event_id,start,player1,player2,odds1,odds2,prob1,prob2,bookmaker,sport_key,region''
            @ [NEWLINE] @ ''ev1,2026-01-01T10:00:00Z,P,P,''
            @ esc numstr (JNum (Fin 0)) @ '','' @ esc numstr (JNum (Fin 0))
            @ '',,,Delta,tennis_atp,eu''"
    by (simp add: all_main_def all_fetchOddsForKey_def net_events_def
        extract_market_sample normalize_zero toCsv_def Object_keys_rows
        get_prop_def event_with_sel bk_prices_label esc_samples Let_def)
      (simp add: all_row_def js_index_def js_at_def finite_fixed4_def num_or_undefined_def
        or_empty_def event_with_sel bk_prices_label esc_samples)
  from cli bulk show ?thesis by (rule conjI)
qed

section \<open>The archive stamp\<close>

subsection \<open>Digits in order\<close>

lemma lex_base1:
  fixes q r q' r' :: nat
  assumes "r < 10" "r' < 10"
  shows "q * 10 + r < q' * 10 + r' \<longleftrightarrow> q < q' \<or> q = q' \<and> r < r'"
proof (cases q q' rule: linorder_cases)
  case less
  then have "q * 10 + 10 \<le> q' * 10" by simp
  with assms less show ?thesis by simp
next
  case equal
  then show ?thesis by simp
next
  case greater
  then have "q' * 10 + 10 \<le> q * 10" by simp
  with assms greater show ?thesis by simp
qed

lemma lex_base2:
  fixes q r q' r' :: nat
  assumes "r < 10" "r' < 10"
  shows "q * 10 + r = q' * 10 + r' \<longleftrightarrow> q = q' \<and> r = r'"
proof (cases q q' rule: linorder_cases)
  case less
  then have "q * 10 + 10 \<le> q' * 10" by simp
  with assms less show ?thesis by simp
next
  case equal
  then show ?thesis by simp
next
  case greater
  then have "q' * 10 + 10 \<le> q * 10" by simp
  with assms greater show ?thesis by simp
qed

lemma lt10: "(k::nat) < 10 \<Longrightarrow> k = 0 \<or> k = 1 \<or> k = 2 \<or> k = 3 \<or> k = 4 \<or> k = 5 \<or> k = 6 \<or> k = 7 \<or> k = 8 \<or> k = 9"
  by arith

lemma of_char_digit: "(of_char (digit_char d) :: nat) = 48 + d mod 10"
  using lt10 [of "d mod 10"] by (auto simp: digit_char_def)

lemma digit_char_less: "digit_char a < digit_char b \<longleftrightarrow> a mod 10 < b mod 10"
  by (simp add: less_char_def of_char_digit)

lemma digit_char_eq: "digit_char a = digit_char b \<longleftrightarrow> a mod 10 = b mod 10"
proof -
  have "digit_char a = digit_char b \<longleftrightarrow> (of_char (digit_char a) :: nat) = of_char (digit_char b)"
    by (simp only: of_char_eq_iff)
  then show ?thesis by (simp add: of_char_digit)
qed

lemma digit_char_keep: "digit_char d \<noteq> CHR ''-''" "digit_char d \<noteq> CHR '':''"
  using of_char_digit [of d] by auto

lemma lex10:
  fixes a b :: nat
  shows "a < b \<longleftrightarrow> a div 10 < b div 10 \<or> a div 10 = b div 10 \<and> a mod 10 < b mod 10"
proof -
  have "a div 10 * 10 + a mod 10 < b div 10 * 10 + b mod 10 \<longleftrightarrow>
        a div 10 < b div 10 \<or> a div 10 = b div 10 \<and> a mod 10 < b mod 10"
    by (rule lex_base1) simp_all
  then show ?thesis by (simp only: div_mult_mod_eq)
qed

lemma eq10:
  fixes a b :: nat
  shows "a = b \<longleftrightarrow> a div 10 = b div 10 \<and> a mod 10 = b mod 10"
proof -
  have "a div 10 * 10 + a mod 10 = b div 10 * 10 + b mod 10 \<longleftrightarrow>
        a div 10 = b div 10 \<and> a mod 10 = b mod 10"
    by (rule lex_base2) simp_all
  then show ?thesis by (simp only: div_mult_mod_eq)
qed

lemma digit_cons_less:
  "digit_char a # xs < digit_char b # ys \<longleftrightarrow>
     a mod 10 < b mod 10 \<or> a mod 10 = b mod 10 \<and> xs < ys"
  by (simp add: digit_char_less digit_char_eq)


lemma pad2_less:
  assumes "a < 100" "b < 100"
  shows "pad2 a @ xs < pad2 b @ ys \<longleftrightarrow> a < b \<or> a = b \<and> xs < ys"
proof -
  have "a div 10 < 10" "b div 10 < 10" using assms by simp_all
  then have d: "a div 10 mod 10 = a div 10" "b div 10 mod 10 = b div 10" by simp_all
  have "pad2 a @ xs < pad2 b @ ys \<longleftrightarrow>
        a div 10 < b div 10 \<or> a div 10 = b div 10 \<and> (a mod 10 < b mod 10 \<or> a mod 10 = b mod 10 \<and> xs < ys)"
    by (simp add: pad2_def digit_char_less digit_char_eq d)
  then show ?thesis using lex10 [of a b] eq10 [of a b] by blast
qed

lemma pad4_less:
  assumes "a < 10000" "b < 10000"
  shows "pad4 a @ xs < pad4 b @ ys \<longleftrightarrow> a < b \<or> a = b \<and> xs < ys"
proof -
  have "a div 1000 < 10" "b div 1000 < 10" using assms by simp_all
  then have d: "a div 1000 mod 10 = a div 1000" "b div 1000 mod 10 = b div 1000" by simp_all
  have e: "n div 10 div 10 = n div 100" "n div 100 div 10 = n div 1000" for n :: nat
    by (simp_all add: div_mult2_eq [symmetric])
  have "pad4 a @ xs < pad4 b @ ys \<longleftrightarrow>
        a div 1000 < b div 1000 \<or> a div 1000 = b div 1000 \<and>
        (a div 100 mod 10 < b div 100 mod 10 \<or> a div 100 mod 10 = b div 100 mod 10 \<and>
        (a div 10 mod 10 < b div 10 mod 10 \<or> a div 10 mod 10 = b div 10 mod 10 \<and>
        (a mod 10 < b mod 10 \<or> a mod 10 = b mod 10 \<and> xs < ys)))"
    by (simp add: pad4_def digit_char_less digit_char_eq d)
  then show ?thesis
    using lex10 [of a b] eq10 [of a b] lex10 [of "a div 10" "b div 10"] eq10 [of "a div 10" "b div 10"]
      lex10 [of "a div 100" "b div 100"] eq10 [of "a div 100" "b div 100"]
    unfolding e by blast
qed



subsection \<open>The stamp of a timestamp\<close>

lemma stamp_toISOString:
  assumes "t_year t \<le> 9999"
  shows "stamp (toISOString t) =
           pad4 (t_year t) @ pad2 (t_month t) @ pad2 (t_day t) @ ''T''
           @ pad2 (t_hour t) @ pad2 (t_minute t) @ pad2 (t_second t)"
  using assms
  by (simp add: stamp_def toISOString_def pad4_def pad2_def pad3_def digit_char_keep)

lemma lex_base100:
  fixes q r q' r' :: nat
  assumes "r < 100" "r' < 100"
  shows "q * 100 + r < q' * 100 + r' \<longleftrightarrow> q < q' \<or> q = q' \<and> r < r'"
proof (cases q q' rule: linorder_cases)
  case less
  then have "q * 100 + 100 \<le> q' * 100" by simp
  with assms less show ?thesis by simp
next
  case equal
  then show ?thesis by simp
next
  case greater
  then have "q' * 100 + 100 \<le> q * 100" by simp
  with assms greater show ?thesis by simp
qed

lemma eq_base100:
  fixes q r q' r' :: nat
  assumes "r < 100" "r' < 100"
  shows "q * 100 + r = q' * 100 + r' \<longleftrightarrow> q = q' \<and> r = r'"
proof (cases q q' rule: linorder_cases)
  case less
  then have "q * 100 + 100 \<le> q' * 100" by simp
  with assms less show ?thesis by simp
next
  case equal
  then show ?thesis by simp
next
  case greater
  then have "q' * 100 + 100 \<le> q * 100" by simp
  with assms greater show ?thesis by simp
qed

lemma stamp_less:
  assumes "t_year a \<le> 9999" "t_year b \<le> 9999" "valid_timestamp a" "valid_timestamp b"
  shows "stamp (toISOString a) < stamp (toISOString b) \<longleftrightarrow> earlier_second a b"
proof -
  have ba: "t_year a < 10000" "t_month a < 100" "t_day a < 100" "t_hour a < 100"
    "t_minute a < 100" "t_second a < 100"
    using assms(1,3) by (simp_all add: valid_timestamp_def)
  have bb: "t_year b < 10000" "t_month b < 100" "t_day b < 100" "t_hour b < 100"
    "t_minute b < 100" "t_second b < 100"
    using assms(2,4) by (simp_all add: valid_timestamp_def)
  let ?L = "t_year a < t_year b \<or> t_year a = t_year b \<and>
      (t_month a < t_month b \<or> t_month a = t_month b \<and>
      (t_day a < t_day b \<or> t_day a = t_day b \<and>
      (t_hour a < t_hour b \<or> t_hour a = t_hour b \<and>
      (t_minute a < t_minute b \<or> t_minute a = t_minute b \<and> t_second a < t_second b))))"
  have s6: "pad2 (t_second a) < pad2 (t_second b) \<longleftrightarrow> t_second a < t_second b"
    using pad2_less [OF ba(6) bb(6), of "[]" "[]"] by simp
  have S: "stamp (toISOString a) < stamp (toISOString b) \<longleftrightarrow> ?L"
    by (simp add: stamp_toISOString assms(1,2) pad4_less ba bb pad2_less s6)
  have K: "earlier_second a b \<longleftrightarrow> ?L"
    unfolding earlier_second_def second_key_def
      lex_base100 [OF ba(6) bb(6)] lex_base100 [OF ba(5) bb(5)] lex_base100 [OF ba(4) bb(4)]
      lex_base100 [OF ba(3) bb(3)] lex_base100 [OF ba(2) bb(2)]
      eq_base100 [OF ba(5) bb(5)] eq_base100 [OF ba(4) bb(4)] eq_base100 [OF ba(3) bb(3)]
      eq_base100 [OF ba(2) bb(2)]
    by blast
  show ?thesis using S K by simp
qed

text \<open>
  C8, as stated, fails: the stamp keeps the \<^verbatim>\<open>T\<close> between date and time and runs to the
  seconds, so it is not the twelve digits of year, month, day, hour and minute.
\<close>

theorem stamp_minute_counterexample:
  "stamp (toISOString sample_time) = ''20261102T162105''
   \<and> minute_stamp sample_time = ''202611021621''
   \<and> stamp (toISOString sample_time) \<noteq> minute_stamp sample_time
   \<and> CHR ''T'' \<in> set (stamp (toISOString sample_time))"
  by (simp add: stamp_def toISOString_def minute_stamp_def sample_time_def pad4_def pad2_def
      pad3_def digit_char_def)

text \<open>
  C8, amended.  The archive file of the bulk snapshot is named with the first fifteen
  characters of the ISO timestamp without its hyphens and colons: for a year up to 9999
  these are the four digits of the year, two each of month and day, the letter \<^verbatim>\<open>T\<close>, and
  two digits each of hour, minute and second.  For two such timestamps the stamps compare
  as strings the way the timestamps compare chronologically down to the second.
\<close>

theorem archive_stamp_format_and_order:
  "(all_main numstr net REGION now catalog = Completed out \<longrightarrow>
       archive_name out = ''data/odds_'' @ stamp (toISOString now) @ ''.csv'')
   \<and> (t_year t \<le> 9999 \<longrightarrow>
       stamp (toISOString t) =
         pad4 (t_year t) @ pad2 (t_month t) @ pad2 (t_day t) @ ''T''
         @ pad2 (t_hour t) @ pad2 (t_minute t) @ pad2 (t_second t)
       \<and> length (stamp (toISOString t)) = 15)
   \<and> (t_year a \<le> 9999 \<and> t_year b \<le> 9999 \<and> valid_timestamp a \<and> valid_timestamp b \<longrightarrow>
       (stamp (toISOString a) < stamp (toISOString b) \<longleftrightarrow> earlier_second a b))"
proof -
  have n: "archive_name out = ''data/odds_'' @ stamp (toISOString now) @ ''.csv''"
    if "all_main numstr net REGION now catalog = Completed out"
    using that
    by (auto simp: all_main_def Let_def split: sum.splits)
  have f: "stamp (toISOString t) =
         pad4 (t_year t) @ pad2 (t_month t) @ pad2 (t_day t) @ ''T''
         @ pad2 (t_hour t) @ pad2 (t_minute t) @ pad2 (t_second t)
       \<and> length (stamp (toISOString t)) = 15" if "t_year t \<le> 9999"
    by (simp add: stamp_toISOString [OF that] pad4_def pad2_def)
  show ?thesis using n f stamp_less [of a b] by blast
qed

theorem archive_stamp_format_and_order_witness:
  "stamp (toISOString sample_time) = ''20261102T162105''
   \<and> stamp (toISOString (sample_time\<lparr>t_hour := 17\<rparr>)) = ''20261102T172105''
   \<and> stamp (toISOString sample_time) < stamp (toISOString (sample_time\<lparr>t_hour := 17\<rparr>))
   \<and> (\<exists>out. all_main (\<lambda>v. []) (net_events []) ''eu'' sample_time (Inr [''tennis_atp''])
               = Completed out
            \<and> archive_name out = ''data/odds_20261102T162105.csv'')"
proof -
  let ?later = "sample_time\<lparr>t_hour := 17\<rparr>"
  note t = archive_stamp_format_and_order
    [of "\<lambda>v. []" "net_events []" "''eu''" sample_time "Inr [''tennis_atp'']" _ sample_time
        sample_time ?later]
  have v: "t_year sample_time \<le> 9999" "t_year ?later \<le> 9999"
    "valid_timestamp sample_time" "valid_timestamp ?later"
    by (simp_all add: sample_time_def valid_timestamp_def)
  have e: "earlier_second sample_time ?later"
    by (simp add: earlier_second_def second_key_def sample_time_def)
  have lt: "stamp (toISOString sample_time) < stamp (toISOString ?later)"
    using t v e by blast
  have s1: "stamp (toISOString sample_time) = ''20261102T162105''"
    using t v(1) by (simp add: sample_time_def pad4_def pad2_def digit_char_def)
  have s2: "stamp (toISOString ?later) = ''20261102T172105''"
    by (simp add: stamp_def toISOString_def sample_time_def pad4_def pad2_def pad3_def
        digit_char_def)
  obtain out where out: "all_main (\<lambda>v. []) (net_events []) ''eu'' sample_time
      (Inr [''tennis_atp'']) = Completed out"
    by (simp add: all_main_def all_fetchOddsForKey_def net_events_def Let_def)
  then have "archive_name out = ''data/odds_'' @ stamp (toISOString sample_time) @ ''.csv''"
    using archive_stamp_format_and_order
      [of "\<lambda>v. []" "net_events []" "''eu''" sample_time "Inr [''tennis_atp'']" out]
    by blast
  then have "archive_name out = ''data/odds_20261102T162105.csv''" by (simp add: s1)
  with out lt s1 s2 show ?thesis by blast
qed


section \<open>The history file\<close>

lemma digit_char_mem: "digit_char d \<in> set ''0123456789''"
  unfolding digit_char_def by (rule nth_mem) simp

lemma hex_char_mem: "hex_char d \<in> set ''0123456789abcdef''"
  unfolding hex_char_def by (rule nth_mem) simp

lemma dec_digits: "set (dec n) \<subseteq> set ''0123456789''"
proof (induction n rule: dec.induct)
  case (1 n)
  show ?case
  proof (cases "n < 10")
    case True
    then show ?thesis using digit_char_mem [of n] by (subst dec.simps) simp
  next
    case False
    then show ?thesis
      using 1 digit_char_mem [of "n mod 10"] by (subst dec.simps) simp
  qed
qed

lemma int_toString_no_newline: "NEWLINE \<notin> set (int_toString n)"
  using dec_digits [of "nat n"] dec_digits [of "nat (- n)"]
  by (auto simp: int_toString_def)

lemma hex_char_not_newline: "hex_char d \<noteq> NEWLINE" "NEWLINE \<noteq> hex_char d"
  using hex_char_mem [of d] by auto

lemma json_escape_no_newline: "NEWLINE \<notin> set (json_escape c)"
  by (simp add: json_escape_def hex_char_not_newline)

lemma JSON_stringify_no_newline: "NEWLINE \<notin> set (JSON_stringify s)"
  using json_escape_no_newline by (auto simp: JSON_stringify_def)

lemma line_line_text: "line r = line_text r @ [NEWLINE]"
  by (simp add: line_def line_text_def)

lemma line_text_no_newline: "single_line r \<Longrightarrow> NEWLINE \<notin> set (line_text r)"
  using JSON_stringify_no_newline int_toString_no_newline
  by (simp add: line_text_def single_line_def)

lemma line_text_quote: "DQUOTE \<in> set (line_text r)"
  by (simp add: line_text_def JSON_stringify_def)

lemma line_count_append: "line_count (a @ b) = line_count a + line_count b"
  by (simp add: line_count_def)

lemma line_count_line: "single_line r \<Longrightarrow> line_count (line r) = 1"
  using line_text_no_newline [of r]
  by (auto simp: line_line_text line_count_def filter_empty_conv)

lemma line_count_rows:
  "\<forall>r\<in>set rows. single_line r \<Longrightarrow> line_count (concat (map line rows)) = length rows"
  by (induction rows) (simp_all add: line_count_append line_count_line, simp add: line_count_def)

lemma split_lines_line:
  "NEWLINE \<notin> set l \<Longrightarrow> split_lines (l @ NEWLINE # rest) = l # split_lines rest"
  by (induction l) auto

lemma split_lines_rows:
  "\<forall>r\<in>set rows. single_line r \<Longrightarrow>
     split_lines (concat (map line rows)) = map line_text rows"
  by (induction rows) (simp_all add: line_line_text split_lines_line line_text_no_newline)

lemma invocations_Some:
  "invocations (Some content) rest = Some (content @ concat (map line (concat rest)))"
  by (induction rest arbitrary: content) (simp_all add: appendHistory_def)

lemma invocations_None:
  "invocations None (rows # rest) = Some (header @ concat (map line (concat (rows # rest))))"
  by (simp add: appendHistory_def invocations_Some)

lemma digit_char_not_newline: "digit_char d \<noteq> NEWLINE" "NEWLINE \<noteq> digit_char d"
  using digit_char_mem [of d] by auto

lemma toISOString_no_newline: "NEWLINE \<notin> set (toISOString t)"
  by (simp add: toISOString_def pad2_def pad3_def pad4_def pad6_def digit_char_not_newline)

lemma scan_rows_single_line:
  assumes "\<forall>g\<in>set REGIONS. NEWLINE \<notin> set g"
  shows "\<forall>r\<in>set (scan_rows net (toISOString now) sports REGIONS). single_line r"
  using assms toISOString_no_newline [of now]
  by (auto simp: scan_rows_def single_line_def)

lemma header_text: "header = ''timestamp,key,title,region,count'' @ [NEWLINE]"
  by (simp add: header_def)

lemma line_text_not_header: "line_text r \<noteq> ''timestamp,key,title,region,count''"
proof
  assume "line_text r = ''timestamp,key,title,region,count''"
  then have "DQUOTE \<in> set ''timestamp,key,title,region,count''"
    using line_text_quote [of r] by simp
  then show False by simp
qed

text \<open>
  C7.  The logger writes the header \<^verbatim>\<open>timestamp,key,title,region,count\<close> when the file does
  not exist and otherwise only appends the lines of the rows.  With timestamps and regions
  free of line breaks (as the rows of a scan are when the configured regions are), an
  invocation with n rows adds n lines to an existing file and creates a new file of the
  header and n lines; after any sequence of invocations on a file that did not exist, the
  lines of the file are the header followed by the lines of all rows in order, and exactly
  one of them is the header.
\<close>

theorem history_header_once:
  "header = ''timestamp,key,title,region,count'' @ [NEWLINE]
   \<and> appendHistory None rows = Some (header @ concat (map line rows))
   \<and> appendHistory (Some content) rows = Some (content @ concat (map line rows))
   \<and> ((\<forall>g\<in>set REGIONS. NEWLINE \<notin> set g) \<longrightarrow>
        (\<forall>r\<in>set (scan_rows net (toISOString now) sports REGIONS). single_line r))
   \<and> ((\<forall>r\<in>set rows. single_line r) \<longrightarrow>
        lines_of (appendHistory file rows)
          = (case file of None \<Rightarrow> 1 | Some c \<Rightarrow> line_count c) + length rows)
   \<and> ((\<forall>r\<in>set (concat (rows # rest)). single_line r) \<longrightarrow>
        (\<exists>f. invocations None (rows # rest) = Some f
           \<and> split_lines f
               = ''timestamp,key,title,region,count'' # map line_text (concat (rows # rest))
           \<and> count_list (split_lines f) ''timestamp,key,title,region,count'' = 1))"
proof -
  have grow: "lines_of (appendHistory file rows)
          = (case file of None \<Rightarrow> 1 | Some c \<Rightarrow> line_count c) + length rows"
    if "\<forall>r\<in>set rows. single_line r"
  proof (cases "file")
    case None
    have "line_count header = 1" by (simp add: header_def line_count_def)
    then show ?thesis
      using None line_count_rows [OF that]
      by (simp add: appendHistory_def lines_of_def line_count_append)
  next
    case (Some c)
    then show ?thesis
      using line_count_rows [OF that]
      by (simp add: appendHistory_def lines_of_def line_count_append)
  qed
  have seq: "\<exists>f. invocations None (rows # rest) = Some f
           \<and> split_lines f
               = ''timestamp,key,title,region,count'' # map line_text (concat (rows # rest))
           \<and> count_list (split_lines f) ''timestamp,key,title,region,count'' = 1"
    if clean: "\<forall>r\<in>set (concat (rows # rest)). single_line r"
  proof -
    let ?all = "concat (rows # rest)"
    let ?f = "header @ concat (map line ?all)"
    have "split_lines ?f
        = ''timestamp,key,title,region,count'' # split_lines (concat (map line ?all))"
      using split_lines_line
        [of "''timestamp,key,title,region,count''" "concat (map line ?all)"]
      by (simp add: header_def)
    then have sp: "split_lines ?f = ''timestamp,key,title,region,count'' # map line_text ?all"
      using split_lines_rows [OF clean] by simp
    have "''timestamp,key,title,region,count'' \<notin> set (map line_text ?all)"
    proof
      assume "''timestamp,key,title,region,count'' \<in> set (map line_text ?all)"
      then obtain r where "line_text r = ''timestamp,key,title,region,count''"
        by (auto simp del: concat.simps)
      then show False using line_text_not_header by blast
    qed
    then have "count_list (map line_text ?all) ''timestamp,key,title,region,count'' = 0"
      by (rule count_list_0_iff [THEN iffD2])
    then have "count_list (split_lines ?f) ''timestamp,key,title,region,count'' = 1"
      unfolding sp by simp
    with sp invocations_None [of rows rest] show ?thesis by blast
  qed
  show ?thesis
    using header_text grow seq scan_rows_single_line [of REGIONS net now sports]
    by (simp add: appendHistory_def)
qed

theorem history_header_once_witness:
  "lines_of (appendHistory None [atp_row 3]) = 2
   \<and> lines_of (appendHistory (appendHistory None [atp_row 3]) [atp_row 0, atp_row (- 1)]) = 4
   \<and> (\<exists>f. invocations None [[atp_row 3], [atp_row 0, atp_row (- 1)]] = Some f
         \<and> length (split_lines f) = 4
         \<and> count_list (split_lines f) ''timestamp,key,title,region,count'' = 1)"
proof -
  have c: "single_line (atp_row n)" for n
    using toISOString_no_newline [of sample_time] by (simp add: single_line_def atp_row_def)
  note grow = history_header_once
    [THEN conjunct2, THEN conjunct2, THEN conjunct2, THEN conjunct2, THEN conjunct1, THEN mp]
  note seq = history_header_once
    [THEN conjunct2, THEN conjunct2, THEN conjunct2, THEN conjunct2, THEN conjunct2, THEN mp]
  have p1: "\<forall>r\<in>set [atp_row 3]. single_line r" using c by simp
  have p2: "\<forall>r\<in>set [atp_row 0, atp_row (- 1)]. single_line r" using c by simp
  have p3: "\<forall>r\<in>set (concat [[atp_row 3], [atp_row 0, atp_row (- 1)]]). single_line r"
    using c by simp
  have a1: "lines_of (appendHistory None [atp_row 3]) = 2"
    using grow [of "[atp_row 3]" None, OF p1] by simp
  obtain f1 where f1: "appendHistory None [atp_row 3] = Some f1"
    by (simp add: appendHistory_def)
  have l1: "line_count f1 = 2" using a1 f1 by (simp add: lines_of_def)
  have a2: "lines_of (appendHistory (Some f1) [atp_row 0, atp_row (- 1)]) = 4"
    using grow [of "[atp_row 0, atp_row (- 1)]" "Some f1", OF p2] l1 by simp
  from seq [of "[atp_row 3]" "[[atp_row 0, atp_row (- 1)]]", OF p3]
  obtain f where f: "invocations None [[atp_row 3], [atp_row 0, atp_row (- 1)]] = Some f"
    "split_lines f = ''timestamp,key,title,region,count''
                 # map line_text (concat [[atp_row 3], [atp_row 0, atp_row (- 1)]])"
    "count_list (split_lines f) ''timestamp,key,title,region,count'' = 1"
    by blast
  have "length (split_lines f) = 4" unfolding f(2) by simp
  with f(1,3) a1 a2 f1 show ?thesis by auto
qed

section \<open>The serializer and its reader\<close>

lemma Object_keys_set: "set (Object_keys r) = fst ` set r"
  by (auto simp: Object_keys_def Let_def)

lemma Object_keys_index_first:
  "Object_keys [(''b'', JNull), (''10'', JNull), (''9'', JNull), (''01'', JNull)]
     = [''9'', ''10'', ''b'', ''01'']"
  by (simp add: Object_keys_def is_array_index_def is_digit_def digit_value_def)

lemma esc_cell_text: "esc numstr v = esc_str (cell_text numstr v)"
  by (cases v) (simp_all add: esc_def esc_str_def cell_text_def needs_quoting_def Let_def)

lemma add_str_simps [simp]:
  "add_str [] recs = recs"
  "add_str (c # s) recs = add_char c (add_str s recs)"
  by (simp_all add: add_str_def)

lemma add_str_field: "add_str s ((f # fs) # rest) = ((s @ f) # fs) # rest"
  by (induction s) (simp_all add: add_char_def)

lemma csv_plain_unquoted:
  "\<not> needs_quoting s \<Longrightarrow> RETURN \<notin> set s \<Longrightarrow> csv_plain (s @ rest) = add_str s (csv_plain rest)"
  by (induction s) (auto simp: needs_quoting_def)

lemma csv_quoted_field:
  assumes "rest = [] \<or> hd rest \<noteq> DQUOTE"
  shows "csv_quoted (replace_quotes s @ DQUOTE # rest) = add_str s (csv_plain rest)"
proof (induction s)
  case Nil
  show ?case using assms by (cases rest) simp_all
next
  case (Cons c s)
  then show ?case by simp
qed

lemma csv_plain_esc_str:
  assumes "rest = [] \<or> hd rest \<noteq> DQUOTE" and "RETURN \<in> set s \<longrightarrow> needs_quoting s"
  shows "csv_plain (esc_str s @ rest) = add_str s (csv_plain rest)"
proof (cases "needs_quoting s")
  case True
  then show ?thesis using csv_quoted_field [OF assms(1), of s] by (simp add: esc_str_def)
next
  case False
  then show ?thesis using assms(2) by (simp add: esc_str_def csv_plain_unquoted)
qed

text \<open>A row of fields followed by the end of the text or by a line break.\<close>

lemma csv_plain_fields:
  assumes "fs \<noteq> []" and "csv_plain rest = [[]] # T" and "rest = [] \<or> hd rest = NEWLINE"
    and "\<forall>f\<in>set fs. RETURN \<in> set f \<longrightarrow> needs_quoting f"
  shows "csv_plain (js_join '','' (map esc_str fs) @ rest) = fs # T"
  using assms(1,4)
proof (induction fs rule: list_nonempty_induct)
  case (single f)
  have "rest = [] \<or> hd rest \<noteq> DQUOTE" using assms(3) by auto
  from csv_plain_esc_str [OF this, of f] single show ?case
    by (simp add: assms(2) add_str_field)
next
  case (cons f gs)
  then obtain g gs' where g: "gs = g # gs'" by (cases gs) auto
  have "csv_plain (js_join '','' (map esc_str (f # gs)) @ rest)
      = csv_plain (esc_str f @ (COMMA # (js_join '','' (map esc_str gs) @ rest)))"
    by (simp add: g)
  also have "\<dots> = add_str f (csv_plain (COMMA # (js_join '','' (map esc_str gs) @ rest)))"
    using cons.prems by (intro csv_plain_esc_str) simp_all
  also have "\<dots> = add_str f (new_field (gs # T))" using cons.IH cons.prems by simp
  also have "\<dots> = (f # gs) # T" by (simp add: new_field_def add_str_field)
  finally show ?case .
qed

lemma csv_plain_lines:
  assumes "ls \<noteq> []" and "\<forall>l\<in>set ls. l \<noteq> []"
    and "\<forall>l\<in>set ls. \<forall>f\<in>set l. RETURN \<in> set f \<longrightarrow> needs_quoting f"
  shows "csv_plain (js_join [NEWLINE] (map (\<lambda>l. js_join '','' (map esc_str l)) ls)) = ls"
  using assms
proof (induction ls rule: list_nonempty_induct)
  case (single l)
  then have "l \<noteq> []" "\<forall>f\<in>set l. RETURN \<in> set f \<longrightarrow> needs_quoting f" by simp_all
  from csv_plain_fields [OF this(1), of "[]" "[]"] this(2) show ?case by simp
next
  case (cons l ms)
  then obtain m ms' where m: "ms = m # ms'" by (cases ms) auto
  let ?r = "\<lambda>l. js_join '','' (map esc_str l)"
  have l: "l \<noteq> []" "\<forall>f\<in>set l. RETURN \<in> set f \<longrightarrow> needs_quoting f" using cons.prems by simp_all
  have IH: "csv_plain (js_join [NEWLINE] (map ?r ms)) = ms" using cons by simp
  have "csv_plain (NEWLINE # js_join [NEWLINE] (map ?r ms)) = [[]] # ms"
    by (simp add: new_record_def IH)
  from csv_plain_fields [OF l(1) this _ l(2)] have
    "csv_plain (?r l @ NEWLINE # js_join [NEWLINE] (map ?r ms)) = l # ms" by simp
  then show ?case by (simp add: m)
qed

lemma get_prop_Cons:
  "h \<noteq> k \<Longrightarrow> get_prop ((k, v) # r) h = get_prop r h"
  "get_prop ((k, v) # r) k = v"
  by (simp_all add: get_prop_def)

lemma get_prop_uniform:
  "distinct (map fst r) \<Longrightarrow> map (get_prop r) (map fst r) = map snd r"
proof (induction r)
  case Nil
  then show ?case by simp
next
  case (Cons a r)
  obtain k v where a: "a = (k, v)" by (cases a)
  have "k \<notin> set (map fst r)" and d: "distinct (map fst r)" using Cons.prems a by simp_all
  then have "map (get_prop ((k, v) # r)) (map fst r) = map (get_prop r) (map fst r)"
    by (intro map_cong refl get_prop_Cons(1)) auto
  then show ?case using Cons.IH [OF d] by (simp add: a get_prop_Cons(2))
qed

lemma esc_str_plain: "\<not> needs_quoting h \<Longrightarrow> esc_str h = h"
  by (simp add: esc_str_def)

lemma toCsv_Cons:
  "toCsv numstr (r0 # rs) =
     js_join [NEWLINE]
       (js_join '','' (Object_keys r0)
        # map (\<lambda>r. js_join '','' (map (\<lambda>h. esc numstr (get_prop r h)) (Object_keys r0)))
            (r0 # rs))"
  by (simp add: toCsv_def Let_def)

lemma csv_plain_toCsv:
  assumes "Object_keys r0 \<noteq> []"
    and "\<forall>h\<in>set (Object_keys r0). \<not> needs_quoting h \<and> RETURN \<notin> set h"
    and "\<forall>r\<in>set (r0 # rs). \<forall>h\<in>set (Object_keys r0).
           RETURN \<in> set (cell_text numstr (get_prop r h))
           \<longrightarrow> needs_quoting (cell_text numstr (get_prop r h))"
  shows "csv_plain (toCsv numstr (r0 # rs)) =
           Object_keys r0
           # map (\<lambda>r. map (\<lambda>h. cell_text numstr (get_prop r h)) (Object_keys r0)) (r0 # rs)"
proof -
  let ?hs = "Object_keys r0"
  let ?F = "\<lambda>r. map (\<lambda>h. cell_text numstr (get_prop r h)) ?hs"
  let ?ls = "?hs # map ?F (r0 # rs)"
  have hd: "js_join '','' ?hs = js_join '','' (map esc_str ?hs)"
    using assms(2) by (simp add: esc_str_plain cong: map_cong)
  have "toCsv numstr (r0 # rs) = js_join [NEWLINE] (map (\<lambda>l. js_join '','' (map esc_str l)) ?ls)"
    unfolding toCsv_Cons by (simp add: hd esc_cell_text comp_def)
  moreover have "?ls \<noteq> []" "\<forall>l\<in>set ?ls. l \<noteq> []" using assms(1) by auto
  moreover have "\<forall>l\<in>set ?ls. \<forall>f\<in>set l. RETURN \<in> set f \<longrightarrow> needs_quoting f"
    using assms(2,3) by auto
  ultimately show ?thesis using csv_plain_lines [of ?ls] by simp
qed

lemma map_of_read:
  assumes "fst ` set r = set hs"
  shows "map_of (zip hs (map (\<lambda>h. cell_text numstr (get_prop r h)) hs))
         = map_of (as_strings numstr r)"
proof
  fix k
  have a: "map_of (as_strings numstr r) k = map_option (cell_text numstr) (map_of r k)"
    unfolding as_strings_def by (simp add: map_of_map)
  show "map_of (zip hs (map (\<lambda>h. cell_text numstr (get_prop r h)) hs)) k
        = map_of (as_strings numstr r) k"
  proof (cases "k \<in> set hs")
    case True
    then have "k \<in> fst ` set r" using assms by simp
    then obtain v where v: "map_of r k = Some v"
      by (metis domD dom_map_of_conv_image_fst)
    then show ?thesis using True by (simp add: map_of_zip_map a get_prop_def)
  next
    case False
    then have "k \<notin> fst ` set r" using assms by simp
    then have "map_of r k = None" by (simp add: map_of_eq_None_iff)
    then show ?thesis using False by (simp add: map_of_zip_map a)
  qed
qed

lemma csv_read_toCsv:
  assumes "Object_keys r0 \<noteq> []"
    and "\<forall>h\<in>set (Object_keys r0). \<not> needs_quoting h \<and> RETURN \<notin> set h"
    and "\<forall>r\<in>set (r0 # rs). \<forall>h\<in>set (Object_keys r0).
           RETURN \<in> set (cell_text numstr (get_prop r h))
           \<longrightarrow> needs_quoting (cell_text numstr (get_prop r h))"
    and "\<not> (\<exists>k. Object_keys r0 = [k] \<and> cell_text numstr (get_prop (last (r0 # rs)) k) = [])"
  shows "csv_read (toCsv numstr (r0 # rs))
         = map (\<lambda>r. zip (Object_keys r0)
                        (map (\<lambda>h. cell_text numstr (get_prop r h)) (Object_keys r0))) (r0 # rs)"
proof -
  let ?hs = "Object_keys r0"
  let ?F = "\<lambda>r. map (\<lambda>h. cell_text numstr (get_prop r h)) ?hs"
  have p: "csv_plain (toCsv numstr (r0 # rs)) = ?hs # map ?F (r0 # rs)"
    by (rule csv_plain_toCsv [OF assms(1,2,3)])
  have ne: "?F (last (r0 # rs)) \<noteq> [[]]"
  proof
    assume e: "?F (last (r0 # rs)) = [[]]"
    then have "length ?hs = 1" by (metis length_map length_Cons list.size(3) One_nat_def)
    then obtain h where h: "?hs = [h]" by (cases ?hs) auto
    then have "cell_text numstr (get_prop (last (r0 # rs)) h) = []" using e by simp
    then show False using assms(4) h by blast
  qed
  have l1: "last (?hs # map ?F (r0 # rs)) = last (map ?F (r0 # rs))"
    by (rule last_ConsR) simp
  have l2: "last (map ?F (r0 # rs)) = ?F (last (r0 # rs))"
    by (rule last_map) simp
  have "last (?hs # map ?F (r0 # rs)) \<noteq> [[]]" unfolding l1 l2 by (rule ne)
  then have "csv_records (toCsv numstr (r0 # rs)) = ?hs # map ?F (r0 # rs)"
    by (simp add: csv_records_def p)
  then show ?thesis by (simp add: csv_read_def comp_def)
qed

lemma js_join_concat: "js_join sep (x # xs) = x @ concat (map (\<lambda>y. sep @ y) xs)"
  by (induction xs arbitrary: x) simp_all

lemma replace_quotes_concat:
  "replace_quotes s = concat (map (\<lambda>c. if c = DQUOTE then [DQUOTE, DQUOTE] else [c]) s)"
  by (induction s) simp_all

lemma js_join_no_newline:
  "\<forall>h\<in>set hs. NEWLINE \<notin> set h \<Longrightarrow> NEWLINE \<notin> set (js_join '','' hs)"
proof (induction hs)
  case Nil
  then show ?case by simp
next
  case (Cons h hs)
  then show ?case by (cases hs) simp_all
qed

text \<open>
  C5.  On the empty list the result is the empty string.  On a non-empty list it is the
  keys of the first record, in the order of \<^verbatim>\<open>Object.keys\<close>, joined by commas, followed for
  every record by a line break and the record's fields under these keys in the same
  order, joined by commas; when no key contains a line break the first line of the text
  is that header.  When no key of the first record is an array index, the order of
  \<^verbatim>\<open>Object.keys\<close> is the insertion order.  For a record with the same keys in the same order
  the fields are its own values in order.  A field whose string form contains a comma, a
  double quote or a line break is written between double quotes with every double quote
  doubled; any other field is written as its string form, and \<^verbatim>\<open>null\<close> and \<^verbatim>\<open>undefined\<close> as
  the empty string.
\<close>

theorem toCsv_header_rows_quoting:
  "toCsv numstr [] = []
   \<and> toCsv numstr (r0 # rs) =
       js_join '','' (Object_keys r0)
       @ concat (map (\<lambda>r. [NEWLINE]
                          @ js_join '','' (map (\<lambda>h. esc numstr (get_prop r h)) (Object_keys r0)))
                   (r0 # rs))
   \<and> (list_all (\<lambda>k. \<not> is_array_index k) (map fst r0) \<longrightarrow> Object_keys r0 = map fst r0)
   \<and> ((\<forall>h\<in>set (Object_keys r0). NEWLINE \<notin> set h) \<longrightarrow>
        takeWhile (\<lambda>c. c \<noteq> NEWLINE) (toCsv numstr (r0 # rs)) = js_join '','' (Object_keys r0))
   \<and> (map fst r = Object_keys r0 \<and> distinct (Object_keys r0) \<longrightarrow>
        map (\<lambda>h. esc numstr (get_prop r h)) (Object_keys r0) = map (\<lambda>(k, v). esc numstr v) r)
   \<and> (v \<noteq> JNull \<and> v \<noteq> JUndefined
        \<and> (\<exists>c\<in>set (String_js numstr v). c = COMMA \<or> c = DQUOTE \<or> c = NEWLINE) \<longrightarrow>
        esc numstr v =
          [DQUOTE]
          @ concat (map (\<lambda>c. if c = DQUOTE then [DQUOTE, DQUOTE] else [c]) (String_js numstr v))
          @ [DQUOTE])
   \<and> (v \<noteq> JNull \<and> v \<noteq> JUndefined
        \<and> \<not> (\<exists>c\<in>set (String_js numstr v). c = COMMA \<or> c = DQUOTE \<or> c = NEWLINE) \<longrightarrow>
        esc numstr v = String_js numstr v)
   \<and> esc numstr JNull = [] \<and> esc numstr JUndefined = []"
proof -
  let ?hs = "Object_keys r0"
  let ?line = "\<lambda>r. js_join '','' (map (\<lambda>h. esc numstr (get_prop r h)) ?hs)"
  have shape: "toCsv numstr (r0 # rs)
      = js_join '','' ?hs @ concat (map (\<lambda>r. [NEWLINE] @ ?line r) (r0 # rs))"
    unfolding toCsv_Cons js_join_concat by (simp add: comp_def)
  have first: "takeWhile (\<lambda>c. c \<noteq> NEWLINE) (toCsv numstr (r0 # rs)) = js_join '','' ?hs"
    if "\<forall>h\<in>set ?hs. NEWLINE \<notin> set h"
  proof -
    have n: "\<forall>c\<in>set (js_join '','' ?hs). c \<noteq> NEWLINE"
      using js_join_no_newline [OF that] by auto
    have "toCsv numstr (r0 # rs)
        = js_join '','' ?hs @ NEWLINE # (?line r0 @ concat (map (\<lambda>r. [NEWLINE] @ ?line r) rs))"
      unfolding shape by simp
    then show ?thesis using n by (simp add: takeWhile_tail)
  qed
  have own: "map (\<lambda>h. esc numstr (get_prop r h)) ?hs = map (\<lambda>(k, v). esc numstr v) r"
    if "map fst r = ?hs" "distinct ?hs"
  proof -
    have "map (\<lambda>h. esc numstr (get_prop r h)) (map fst r)
        = map (esc numstr) (map (get_prop r) (map fst r))" by (simp add: comp_def)
    also have "\<dots> = map (esc numstr) (map snd r)"
      using get_prop_uniform [of r] that by simp
    also have "\<dots> = map (\<lambda>(k, v). esc numstr v) r" by (simp add: comp_def case_prod_beta)
    finally show ?thesis using that(1) by simp
  qed
  have q: "esc numstr v =
          [DQUOTE]
          @ concat (map (\<lambda>c. if c = DQUOTE then [DQUOTE, DQUOTE] else [c]) (String_js numstr v))
          @ [DQUOTE]"
    if "v \<noteq> JNull" "v \<noteq> JUndefined"
       "\<exists>c\<in>set (String_js numstr v). c = COMMA \<or> c = DQUOTE \<or> c = NEWLINE"
  proof -
    have "needs_quoting (String_js numstr v)"
      using that(3) by (auto simp: needs_quoting_def list_ex_iff)
    then show ?thesis using that(1,2) by (simp add: esc_def Let_def replace_quotes_concat)
  qed
  have u: "esc numstr v = String_js numstr v"
    if "v \<noteq> JNull" "v \<noteq> JUndefined"
       "\<not> (\<exists>c\<in>set (String_js numstr v). c = COMMA \<or> c = DQUOTE \<or> c = NEWLINE)"
  proof -
    have "\<not> needs_quoting (String_js numstr v)"
      using that(3) by (auto simp: needs_quoting_def list_ex_iff)
    then show ?thesis using that(1,2) by (simp add: esc_def Let_def)
  qed
  have e: "toCsv numstr [] = []" "esc numstr JNull = []" "esc numstr JUndefined = []"
    by (simp_all add: toCsv_def esc_def)
  show ?thesis
    apply (intro conjI impI)
    subgoal by (rule e(1))
    subgoal by (rule shape)
    subgoal by (rule Object_keys_plain)
    subgoal by (rule first)
    subgoal by (rule own) simp_all
    subgoal by (rule q) simp_all
    subgoal by (rule u) simp_all
    subgoal by (rule e(2))
    subgoal by (rule e(3))
    done
qed

theorem toCsv_header_rows_quoting_witness:
  "takeWhile (\<lambda>c. c \<noteq> NEWLINE) (toCsv (\<lambda>v. []) sample_rows) = ''a,b''
   \<and> Object_keys (hd sample_rows) = [''a'', ''b'']
   \<and> esc (\<lambda>v. []) (JStr ''x,y'') = [DQUOTE] @ ''x,y'' @ [DQUOTE]
   \<and> esc (\<lambda>v. []) (JStr [DQUOTE, NEWLINE]) = [DQUOTE, DQUOTE, DQUOTE, NEWLINE, DQUOTE]
   \<and> esc (\<lambda>v. []) (JStr ''z'') = ''z''"
proof -
  note t = toCsv_header_rows_quoting
    [of "\<lambda>v. []" "[(''a'', JStr ''x,y''), (''b'', JNull)]"
        "[[(''a'', JStr [DQUOTE, NEWLINE]), (''b'', JStr ''z'')]]"]
  have k: "Object_keys [(''a'', JStr ''x,y''), (''b'', JNull)] = [''a'', ''b'']"
    using t [of "[]" JNull, THEN conjunct2, THEN conjunct2, THEN conjunct1]
    by (simp add: is_array_index_def is_digit_def)
  have first: "takeWhile (\<lambda>c. c \<noteq> NEWLINE) (toCsv (\<lambda>v. []) sample_rows) = ''a,b''"
    using t [of "[]" JNull, THEN conjunct2, THEN conjunct2, THEN conjunct2, THEN conjunct1]
    unfolding k sample_rows_def by simp
  note quoted = toCsv_header_rows_quoting
    [THEN conjunct2, THEN conjunct2, THEN conjunct2, THEN conjunct2, THEN conjunct2,
     THEN conjunct1, THEN mp]
  note plain = toCsv_header_rows_quoting
    [THEN conjunct2, THEN conjunct2, THEN conjunct2, THEN conjunct2, THEN conjunct2,
     THEN conjunct2, THEN conjunct1, THEN mp]
  have e1: "esc (\<lambda>v. []) (JStr ''x,y'') = [DQUOTE] @ ''x,y'' @ [DQUOTE]"
    using quoted [of "JStr ''x,y''" "\<lambda>v. []"] by simp
  have e2: "esc (\<lambda>v. []) (JStr ''z'') = ''z''"
    using plain [of "JStr ''z''" "\<lambda>v. []"] by simp
  have e3: "esc (\<lambda>v. []) (JStr [DQUOTE, NEWLINE]) = [DQUOTE, DQUOTE, DQUOTE, NEWLINE, DQUOTE]"
    using quoted [of "JStr [DQUOTE, NEWLINE]" "\<lambda>v. []"] by auto
  from first k e1 e2 e3 show ?thesis by (simp add: sample_rows_def)
qed

text \<open>
  C6, as stated, fails, in several ways.  The text of one record with a single empty
  field is the header and a line break, which the reader takes for a final line break
  after the header: it gives no record back.  A field that ends with a carriage return is
  written without quotes, so that with the line feed after it the reader sees the line
  break of RFC 4180 and gives the field back without its last character.  The texts of a
  record with \<^verbatim>\<open>null\<close> and of the same record with the empty string are the same, so a
  field comes back as its text at best.  A key is written without quotes: one that
  contains a comma comes back as two header names, and one that ends with a carriage
  return comes back without it.  And a list of records without any key is read as no
  record.
\<close>

theorem toCsv_round_trip_counterexample:
  "csv_read (toCsv (\<lambda>v. []) [[(''a'', JStr [])]]) = []
   \<and> csv_read (toCsv (\<lambda>v. []) [[(''a'', JStr [CHR ''x'', RETURN])], [(''a'', JStr ''y'')]])
       = [[(''a'', ''x'')], [(''a'', ''y'')]]
   \<and> toCsv (\<lambda>v. []) [[(''a'', JNull), (''b'', JStr ''z'')]]
       = toCsv (\<lambda>v. []) [[(''a'', JStr []), (''b'', JStr ''z'')]]
   \<and> csv_read (toCsv (\<lambda>v. []) [[(''a,b'', JStr ''x'')]]) = [[(''a'', ''x'')]]
   \<and> csv_read (toCsv (\<lambda>v. []) [[([CHR ''a'', RETURN], JStr ''x'')]]) = [[(''a'', ''x'')]]
   \<and> csv_read (toCsv (\<lambda>v. []) [[]]) = []"
  by (simp add: toCsv_def Object_keys_def is_array_index_def is_digit_def get_prop_def esc_def
      needs_quoting_def csv_read_def csv_records_def add_char_def new_record_def new_field_def)

text \<open>
  C6, amended.  For a non-empty list of records with the same set of keys, at least one
  key, no comma, double quote, line feed or carriage return in a key, no carriage return
  in a field that is written without quotes, and unless the records have a single key and
  the text of the last record's field is empty, reading the text of \<open>toCsv\<close> gives, record
  by record, the keys of the record with every value as its text: its string form, which
  may contain commas, double quotes and line feeds, and the empty string for \<^verbatim>\<open>null\<close> and
  \<^verbatim>\<open>undefined\<close>.  Records whose values are all strings are given back exactly.  The text of
  the empty list is read as the empty list.
\<close>

theorem toCsv_round_trip:
  assumes "Object_keys r0 \<noteq> []"
    and "\<forall>h\<in>set (Object_keys r0). \<not> needs_quoting h \<and> RETURN \<notin> set h"
    and "\<forall>r\<in>set (r0 # rs). fst ` set r = fst ` set r0"
    and "\<forall>r\<in>set (r0 # rs). \<forall>h\<in>set (Object_keys r0).
           RETURN \<in> set (cell_text numstr (get_prop r h))
           \<longrightarrow> needs_quoting (cell_text numstr (get_prop r h))"
    and "\<not> (\<exists>k. Object_keys r0 = [k] \<and> cell_text numstr (get_prop (last (r0 # rs)) k) = [])"
  shows "map map_of (csv_read (toCsv numstr (r0 # rs)))
           = map (\<lambda>r. map_of (as_strings numstr r)) (r0 # rs)
         \<and> ((\<forall>r\<in>set (r0 # rs). \<forall>v\<in>snd ` set r. \<exists>s. v = JStr s) \<longrightarrow>
              map (\<lambda>m. map_option JStr \<circ> m) (map map_of (csv_read (toCsv numstr (r0 # rs))))
                = map map_of (r0 # rs))
         \<and> csv_read (toCsv numstr []) = []"
proof -
  let ?hs = "Object_keys r0"
  have rd: "csv_read (toCsv numstr (r0 # rs))
         = map (\<lambda>r. zip ?hs (map (\<lambda>h. cell_text numstr (get_prop r h)) ?hs)) (r0 # rs)"
    by (rule csv_read_toCsv [OF assms(1,2,4,5)])
  have rt: "map map_of (csv_read (toCsv numstr (r0 # rs)))
           = map (\<lambda>r. map_of (as_strings numstr r)) (r0 # rs)"
    unfolding rd map_map comp_def
  proof (rule map_cong [OF refl])
    fix r assume "r \<in> set (r0 # rs)"
    then have "fst ` set r = fst ` set r0" using assms(3) by blast
    then have "fst ` set r = set ?hs" by (simp add: Object_keys_set)
    then show "map_of (zip ?hs (map (\<lambda>h. cell_text numstr (get_prop r h)) ?hs))
        = map_of (as_strings numstr r)" by (rule map_of_read)
  qed
  have restore: "map_option JStr \<circ> map_of (as_strings numstr r) = map_of r"
    if strs: "\<forall>v\<in>snd ` set r. \<exists>s. v = JStr s" for r
  proof
    fix k
    show "(map_option JStr \<circ> map_of (as_strings numstr r)) k = map_of r k"
    proof (cases "map_of r k")
      case None
      then show ?thesis by (simp add: as_strings_def map_of_map)
    next
      case (Some v)
      then have "v \<in> snd ` set r" by (metis map_of_SomeD snd_conv image_eqI)
      then obtain s where "v = JStr s" using strs by blast
      then show ?thesis using Some by (simp add: as_strings_def map_of_map cell_text_def)
    qed
  qed
  have strings: "map (\<lambda>m. map_option JStr \<circ> m) (map map_of (csv_read (toCsv numstr (r0 # rs))))
                = map map_of (r0 # rs)"
    if "\<forall>r\<in>set (r0 # rs). \<forall>v\<in>snd ` set r. \<exists>s. v = JStr s"
    unfolding rt map_map comp_def
  proof (rule map_cong [OF refl])
    fix r assume "r \<in> set (r0 # rs)"
    then have "\<forall>v\<in>snd ` set r. \<exists>s. v = JStr s" using that by blast
    from restore [OF this] show "(\<lambda>x. map_option JStr (map_of (as_strings numstr r) x)) = map_of r"
      by (simp add: comp_def)
  qed
  have empty: "csv_read (toCsv numstr []) = []"
    by (simp add: toCsv_def csv_read_def csv_records_def)
  show ?thesis using rt strings empty by blast
qed

theorem toCsv_round_trip_witness:
  "map map_of (csv_read (toCsv (\<lambda>v. []) sample_rows))
     = [map_of [(''a'', ''x,y''), (''b'', [])], map_of [(''a'', [DQUOTE, NEWLINE]), (''b'', ''z'')]]"
proof -
  have k: "Object_keys [(''a'', JStr ''x,y''), (''b'', JNull)] = [''a'', ''b'']"
    by (simp add: Object_keys_def is_array_index_def is_digit_def)
  have "map map_of (csv_read (toCsv (\<lambda>v. []) sample_rows))
      = map (\<lambda>r. map_of (as_strings (\<lambda>v. []) r)) sample_rows"
    unfolding sample_rows_def
    using toCsv_round_trip [of "[(''a'', JStr ''x,y''), (''b'', JNull)]" 
        "[[(''a'', JStr [DQUOTE, NEWLINE]), (''b'', JStr ''z'')]]" "\<lambda>v. []"]
    by (simp add: k needs_quoting_def get_prop_def cell_text_def)
  then show ?thesis by (simp add: sample_rows_def as_strings_def cell_text_def)
qed

end
